theory Spec2Isabelle
  imports Main
begin

section \<open>Boards\<close>

text \<open>
  A board is a JavaScript array of arrays whose entries are numbers or \<open>null\<close>
  (\<open>SudokuBoard = (number | null)[][]\<close>). Numbers are modelled as integers. Reading
  past the end of an inner array yields \<open>undefined\<close>; reading a row that does not
  exist and indexing into it raises a \<open>TypeError\<close>. An assignment past the end of an
  inner array extends it, the skipped entries reading as \<open>undefined\<close>.
\<close>

datatype error = TypeError

datatype cell = Undefined | Null | Num int

type_synonym board = "cell list list"

definition rd :: "board \<Rightarrow> nat \<Rightarrow> nat \<Rightarrow> error + cell" where
  "rd board i j =
     (if i < length board
      then Inr (if j < length (board ! i) then board ! i ! j else Undefined)
      else Inl TypeError)"

definition setAt :: "cell list \<Rightarrow> nat \<Rightarrow> cell \<Rightarrow> cell list" where
  "setAt xs j v =
     (if j < length xs then xs[j := v]
      else xs @ replicate (j - length xs) Undefined @ [v])"

definition wr :: "board \<Rightarrow> nat \<Rightarrow> nat \<Rightarrow> cell \<Rightarrow> error + board" where
  "wr board i j v =
     (if i < length board then Inr (board[i := setAt (board ! i) j v])
      else Inl TypeError)"

section \<open>The solver (sudokuSolver.ts)\<close>

text \<open>
  \<open>scan board num ps\<close> is one of the three loops of \<open>isValid\<close>: it reads the
  positions \<open>ps\<close> in order and stops at the first one that holds \<open>num\<close>.
\<close>

fun scan :: "board \<Rightarrow> int \<Rightarrow> (nat \<times> nat) list \<Rightarrow> error + bool" where
  "scan board num [] = Inr False"
| "scan board num ((i, j) # ps) =
     (case rd board i j of
        Inl e \<Rightarrow> Inl e
      | Inr v \<Rightarrow> if v = Num num then Inr True else scan board num ps)"

definition isValid :: "board \<Rightarrow> nat \<Rightarrow> nat \<Rightarrow> int \<Rightarrow> error + bool" where
  "isValid board row col num =
     (case scan board num (map (\<lambda>x. (row, x)) [0..<9]) of
        Inl e \<Rightarrow> Inl e
      | Inr True \<Rightarrow> Inr False
      | Inr False \<Rightarrow>
         (case scan board num (map (\<lambda>x. (x, col)) [0..<9]) of
            Inl e \<Rightarrow> Inl e
          | Inr True \<Rightarrow> Inr False
          | Inr False \<Rightarrow>
             (let startRow = row - row mod 3; startCol = col - col mod 3 in
              case scan board num
                     (concat (map (\<lambda>i. map (\<lambda>j. (i + startRow, j + startCol)) [0..<3])
                        [0..<3])) of
                Inl e \<Rightarrow> Inl e
              | Inr True \<Rightarrow> Inr False
              | Inr False \<Rightarrow> Inr True)))"

definition isEmptyCell :: "cell \<Rightarrow> bool" where
  "isEmptyCell v = (v = Null \<or> v = Num 0)"

fun findEmptyIn :: "board \<Rightarrow> (nat \<times> nat) list \<Rightarrow> error + (nat \<times> nat) option" where
  "findEmptyIn board [] = Inr None"
| "findEmptyIn board ((i, j) # ps) =
     (case rd board i j of
        Inl e \<Rightarrow> Inl e
      | Inr v \<Rightarrow> if isEmptyCell v then Inr (Some (i, j)) else findEmptyIn board ps)"

definition allCells :: "(nat \<times> nat) list" where
  "allCells = concat (map (\<lambda>i. map (\<lambda>j. (i, j)) [0..<9]) [0..<9])"

definition findEmpty :: "board \<Rightarrow> error + (nat \<times> nat) option" where
  "findEmpty board = findEmptyIn board allCells"

text \<open>
  \<open>solveSudokuInstant\<close> mutates the board in place; the model returns the board it
  leaves behind together with the boolean. \<open>solveInstantFrom board row col num\<close> is the
  \<open>for\<close> loop over the digits, entered at \<open>num\<close>.
\<close>

function solveSudokuInstant :: "board \<Rightarrow> error + (bool \<times> board)"
  and solveInstantFrom :: "board \<Rightarrow> nat \<Rightarrow> nat \<Rightarrow> nat \<Rightarrow> error + (bool \<times> board)"
where
  "solveSudokuInstant board =
     (case findEmpty board of
        Inl e \<Rightarrow> Inl e
      | Inr None \<Rightarrow> Inr (True, board)
      | Inr (Some (row, col)) \<Rightarrow> solveInstantFrom board row col 1)"
| "solveInstantFrom board row col num =
     (if 9 < num then Inr (False, board)
      else case isValid board row col (int num) of
        Inl e \<Rightarrow> Inl e
      | Inr False \<Rightarrow> solveInstantFrom board row col (num + 1)
      | Inr True \<Rightarrow>
         (case wr board row col (Num (int num)) of
            Inl e \<Rightarrow> Inl e
          | Inr b1 \<Rightarrow>
             (case solveSudokuInstant b1 of
                Inl e \<Rightarrow> Inl e
              | Inr (True, b2) \<Rightarrow> Inr (True, b2)
              | Inr (False, b2) \<Rightarrow>
                 (case wr b2 row col Null of
                    Inl e \<Rightarrow> Inl e
                  | Inr b3 \<Rightarrow> solveInstantFrom b3 row col (num + 1)))))"
  by pat_completeness auto

text \<open>
  \<open>solveSudoku\<close> is the same search with the optional callback \<open>onStep\<close>. The model
  takes a flag saying whether a callback was passed and returns, besides the boolean and
  the final board, the sequence of calls the callback receives: a copy of the board, the
  row and the column, after each placement and after each removal. The awaited timeouts
  only delay; the promise is rejected where the model returns an error.
\<close>

record step =
  snapshot :: board
  stepRow :: nat
  stepCol :: nat

definition emit :: "bool \<Rightarrow> board \<Rightarrow> nat \<Rightarrow> nat \<Rightarrow> step list" where
  "emit onStep board row col =
     (if onStep then [\<lparr>snapshot = board, stepRow = row, stepCol = col\<rparr>] else [])"

function solveSudoku :: "board \<Rightarrow> bool \<Rightarrow> error + (bool \<times> board \<times> step list)"
  and solveFrom :: "board \<Rightarrow> bool \<Rightarrow> nat \<Rightarrow> nat \<Rightarrow> nat \<Rightarrow> error + (bool \<times> board \<times> step list)"
where
  "solveSudoku board onStep =
     (case findEmpty board of
        Inl e \<Rightarrow> Inl e
      | Inr None \<Rightarrow> Inr (True, board, [])
      | Inr (Some (row, col)) \<Rightarrow> solveFrom board onStep row col 1)"
| "solveFrom board onStep row col num =
     (if 9 < num then Inr (False, board, [])
      else case isValid board row col (int num) of
        Inl e \<Rightarrow> Inl e
      | Inr False \<Rightarrow> solveFrom board onStep row col (num + 1)
      | Inr True \<Rightarrow>
         (case wr board row col (Num (int num)) of
            Inl e \<Rightarrow> Inl e
          | Inr b1 \<Rightarrow>
             (case solveSudoku b1 onStep of
                Inl e \<Rightarrow> Inl e
              | Inr (True, b2, steps) \<Rightarrow> Inr (True, b2, emit onStep b1 row col @ steps)
              | Inr (False, b2, steps) \<Rightarrow>
                 (case wr b2 row col Null of
                    Inl e \<Rightarrow> Inl e
                  | Inr b3 \<Rightarrow>
                     (case solveFrom b3 onStep row col (num + 1) of
                        Inl e \<Rightarrow> Inl e
                      | Inr (ok, b4, rest) \<Rightarrow>
                          Inr (ok, b4,
                            emit onStep b1 row col @ steps @ emit onStep b3 row col @ rest))))))"
  by pat_completeness auto

text \<open>
  The page replays a trace by showing each snapshot in turn (\<open>setBoard(newBoard)\<close>): the
  board on display after the last step is the last snapshot, and the original board when
  there is no step.
\<close>

definition replay :: "board \<Rightarrow> step list \<Rightarrow> board" where
  "replay board steps = foldl (\<lambda>shown s. snapshot s) board steps"

section \<open>Termination of the search\<close>

text \<open>
  Every recursive call of the search sees one empty cell fewer; a failed call gives the
  board back with no new empty cell. \<open>cellsWhere P board\<close> is the set of positions whose
  entry satisfies \<open>P\<close>.
\<close>

definition cellsWhere :: "(cell \<Rightarrow> bool) \<Rightarrow> board \<Rightarrow> (nat \<times> nat) set" where
  "cellsWhere P board =
     {(i, j). i < length board \<and> j < length (board ! i) \<and> P (board ! i ! j)}"

lemma finite_cellsWhere: "finite (cellsWhere P b)"
proof (rule finite_subset)
  show "cellsWhere P b \<subseteq> (SIGMA i:{..<length b}. {..<length (b ! i)})"
    by (auto simp: cellsWhere_def)
  show "finite (SIGMA i:{..<length b}. {..<length (b ! i)})"
    by auto
qed

lemma card_cellsWhere_le: "card (cellsWhere P b) \<le> Suc (card (cellsWhere P b - {p}))"
proof (cases "p \<in> cellsWhere P b")
  case True
  from card.remove[OF finite_cellsWhere this] show ?thesis by (rule eq_imp_le)
next
  case False
  then have "cellsWhere P b - {p} = cellsWhere P b" by blast
  then show ?thesis by simp
qed

lemma setAt_nth_other:
  "q \<noteq> j \<Longrightarrow> q < length (setAt xs j v) \<Longrightarrow>
   setAt xs j v ! q = (if q < length xs then xs ! q else Undefined)"
  by (auto simp: setAt_def nth_append)

lemma setAt_length: "length xs \<le> length (setAt xs j v)"
  by (auto simp: setAt_def)

lemma setAt_nth_same: "setAt xs j v ! j = v" "j < length (setAt xs j v)"
  by (auto simp: setAt_def nth_append)

lemma wr_cellsWhere_other:
  assumes "wr b i j v = Inr b'" and "\<not> P Undefined"
  shows "cellsWhere P b' - {(i, j)} = cellsWhere P b - {(i, j)}"
proof -
  from assms(1) have i: "i < length b" and b': "b' = b[i := setAt (b ! i) j v]"
    by (auto simp: wr_def split: if_splits)
  have len: "length b' = length b" by (simp add: b')
  have "(p, q) \<in> cellsWhere P b' \<longleftrightarrow> (p, q) \<in> cellsWhere P b" if "(p, q) \<noteq> (i, j)" for p q
  proof (cases "p = i")
    case True
    with that have q: "q \<noteq> j" by simp
    have row: "b' ! i = setAt (b ! i) j v" using i by (simp add: b')
    show ?thesis
    proof (cases "q < length (b ! i)")
      case True
      then have "q < length (setAt (b ! i) j v)"
        using setAt_length[of "b ! i" j v] by simp
      with True setAt_nth_other[OF q, of "b ! i" v] show ?thesis
        using \<open>p = i\<close> i by (simp add: cellsWhere_def len row)
    next
      case False
      then have "q < length (setAt (b ! i) j v) \<Longrightarrow> setAt (b ! i) j v ! q = Undefined"
        using setAt_nth_other[OF q, of "b ! i" v] by simp
      with False assms(2) show ?thesis
        using \<open>p = i\<close> i by (auto simp: cellsWhere_def len row)
    qed
  next
    case False
    then show ?thesis by (simp add: cellsWhere_def b')
  qed
  then show ?thesis by auto
qed

lemma wr_cellsWhere_filled:
  assumes "wr b i j v = Inr b'" and "\<not> P Undefined" and "\<not> P v"
  shows "cellsWhere P b' = cellsWhere P b - {(i, j)}"
proof -
  from assms(1) have i: "i < length b" and b': "b' = b[i := setAt (b ! i) j v]"
    by (auto simp: wr_def split: if_splits)
  have "(i, j) \<notin> cellsWhere P b'"
    using assms(3) i by (simp add: cellsWhere_def b' setAt_nth_same)
  with wr_cellsWhere_other[of b i j v b' P] assms(1,2) show ?thesis by blast
qed

lemma isEmptyCell_simps [simp]:
  "\<not> isEmptyCell Undefined" "isEmptyCell Null" "isEmptyCell (Num n) \<longleftrightarrow> n = 0"
  by (auto simp: isEmptyCell_def)

lemma findEmptyIn_Some:
  "findEmptyIn b ps = Inr (Some (i, j)) \<Longrightarrow>
   (i, j) \<in> set ps \<and> (\<exists>v. rd b i j = Inr v \<and> isEmptyCell v)"
  by (induction b ps rule: findEmptyIn.induct) (auto split: sum.splits if_splits)

lemma rd_cellsWhere: "rd b i j = Inr v \<Longrightarrow> P v \<Longrightarrow> \<not> P Undefined \<Longrightarrow> (i, j) \<in> cellsWhere P b"
  by (auto simp: rd_def cellsWhere_def split: if_splits)

lemma findEmpty_cellsWhere:
  assumes "findEmpty b = Inr (Some (i, j))"
  shows "(i, j) \<in> cellsWhere isEmptyCell b"
proof -
  from assms obtain v where "rd b i j = Inr v" "isEmptyCell v"
    unfolding findEmpty_def using findEmptyIn_Some by blast
  then show ?thesis by (rule rd_cellsWhere) simp
qed

lemma solveSudokuInstant_partial_frame:
  "solveSudokuInstant_solveInstantFrom_dom (Inl b) \<Longrightarrow>
     (\<forall>b'. solveSudokuInstant b = Inr (False, b') \<longrightarrow>
        cellsWhere isEmptyCell b' \<subseteq> cellsWhere isEmptyCell b)"
  "solveSudokuInstant_solveInstantFrom_dom (Inr (b, r, c, n)) \<Longrightarrow>
     (\<forall>b'. solveInstantFrom b r c n = Inr (False, b') \<longrightarrow>
        cellsWhere isEmptyCell b' \<subseteq> insert (r, c) (cellsWhere isEmptyCell b))"
proof (induction b and b r c n rule: solveSudokuInstant_solveInstantFrom.pinduct)
  case (1 board)
  show ?case
  proof (intro allI impI)
    fix b' assume res: "solveSudokuInstant board = Inr (False, b')"
    from res 1(1) obtain row col where fe: "findEmpty board = Inr (Some (row, col))"
      and lp: "solveInstantFrom board row col 1 = Inr (False, b')"
      by (auto simp: solveSudokuInstant.psimps split: sum.splits option.splits)
    from 1(2)[OF fe refl refl] lp
    have "cellsWhere isEmptyCell b' \<subseteq> insert (row, col) (cellsWhere isEmptyCell board)"
      by blast
    with findEmpty_cellsWhere[OF fe]
    show "cellsWhere isEmptyCell b' \<subseteq> cellsWhere isEmptyCell board" by auto
  qed
next
  case (2 board row col num)
  show ?case
  proof (intro allI impI)
    fix b' assume res: "solveInstantFrom board row col num = Inr (False, b')"
    show "cellsWhere isEmptyCell b' \<subseteq> insert (row, col) (cellsWhere isEmptyCell board)"
    proof (cases "9 < num")
      case True
      with res 2(1) show ?thesis by (auto simp: solveInstantFrom.psimps)
    next
      case le: False
      then obtain ok where iv: "isValid board row col (int num) = Inr ok"
        using res 2(1) by (auto simp: solveInstantFrom.psimps split: sum.splits)
      show ?thesis
      proof (cases ok)
        case False
        with res 2(1) le iv have "solveInstantFrom board row col (num + 1) = Inr (False, b')"
          by (simp add: solveInstantFrom.psimps)
        moreover from False have "ok = False" by simp
        ultimately show ?thesis using 2(4)[OF le iv] by blast
      next
        case True
        with res 2(1) le iv obtain b1 b2 b3 where
          w1: "wr board row col (Num (int num)) = Inr b1" and
          s: "solveSudokuInstant b1 = Inr (False, b2)" and
          w2: "wr b2 row col Null = Inr b3" and
          r: "solveInstantFrom b3 row col (num + 1) = Inr (False, b')"
          by (auto simp: solveInstantFrom.psimps split: sum.splits bool.splits prod.splits)
        from True have okT: "ok = True" by simp
        from 2(2)[OF le iv okT w1] s
        have "cellsWhere isEmptyCell b2 \<subseteq> cellsWhere isEmptyCell b1" by blast
        moreover from 2(3)[OF le iv okT w1 s refl refl w2] r
        have "cellsWhere isEmptyCell b' \<subseteq> insert (row, col) (cellsWhere isEmptyCell b3)"
          by blast
        moreover have "cellsWhere isEmptyCell b1 - {(row, col)}
            = cellsWhere isEmptyCell board - {(row, col)}"
          by (rule wr_cellsWhere_other[OF w1]) simp
        moreover have "cellsWhere isEmptyCell b3 - {(row, col)}
            = cellsWhere isEmptyCell b2 - {(row, col)}"
          by (rule wr_cellsWhere_other[OF w2]) simp
        ultimately show ?thesis by blast
      qed
    qed
  qed
qed

termination solveSudokuInstant
proof (relation "measure (\<lambda>x. case x of
          Inl b \<Rightarrow> 20 * card (cellsWhere isEmptyCell b)
        | Inr (b, r, c, n) \<Rightarrow>
            20 * card (cellsWhere isEmptyCell b - {(r, c)}) + (20 - n)
              + (if n = 0 then 21 else 0))", goal_cases)
  case 1
  then show ?case by simp
next
  case (2 board b x2 x y)
  then have "(x, y) \<in> cellsWhere isEmptyCell board"
    using findEmpty_cellsWhere by auto
  then have "card (cellsWhere isEmptyCell board - {(x, y)}) < card (cellsWhere isEmptyCell board)"
    by (rule card_Diff1_less[OF finite_cellsWhere])
  then show ?case by simp
next
  case (3 board row col num b ba)
  have eq: "cellsWhere isEmptyCell ba - {(row, col)} = cellsWhere isEmptyCell board - {(row, col)}"
    by (rule wr_cellsWhere_other[OF 3(4)]) simp
  show ?case
  proof (cases "num = 0")
    case True
    with card_cellsWhere_le[of isEmptyCell ba "(row, col)"] eq show ?thesis by simp
  next
    case False
    then have "cellsWhere isEmptyCell ba = cellsWhere isEmptyCell board - {(row, col)}"
      using wr_cellsWhere_filled[OF 3(4), of isEmptyCell] by simp
    with False 3(1) show ?thesis by simp
  qed
next
  case (4 board row col num b ba bb x y bc)
  then have "cellsWhere isEmptyCell y \<subseteq> cellsWhere isEmptyCell ba"
    using solveSudokuInstant_partial_frame(1) by blast
  moreover have "cellsWhere isEmptyCell ba - {(row, col)}
      = cellsWhere isEmptyCell board - {(row, col)}"
    by (rule wr_cellsWhere_other[OF 4(4)]) simp
  moreover have "cellsWhere isEmptyCell bc - {(row, col)}
      = cellsWhere isEmptyCell y - {(row, col)}"
    by (rule wr_cellsWhere_other[OF 4(8)]) simp
  ultimately have "cellsWhere isEmptyCell bc - {(row, col)}
      \<subseteq> cellsWhere isEmptyCell board - {(row, col)}" by blast
  then have "card (cellsWhere isEmptyCell bc - {(row, col)})
      \<le> card (cellsWhere isEmptyCell board - {(row, col)})"
    by (simp add: card_mono finite_cellsWhere)
  then show ?case using 4(1) by auto
next
  case (5 board row col num b)
  then show ?case by auto
qed

declare solveSudokuInstant.simps [simp del] solveInstantFrom.simps [simp del]

lemma solveSudoku_partial_frame:
  "solveSudoku_solveFrom_dom (Inl (b, t)) \<Longrightarrow>
     (\<forall>b' tr. solveSudoku b t = Inr (False, b', tr) \<longrightarrow>
        cellsWhere isEmptyCell b' \<subseteq> cellsWhere isEmptyCell b)"
  "solveSudoku_solveFrom_dom (Inr (b, t, r, c, n)) \<Longrightarrow>
     (\<forall>b' tr. solveFrom b t r c n = Inr (False, b', tr) \<longrightarrow>
        cellsWhere isEmptyCell b' \<subseteq> insert (r, c) (cellsWhere isEmptyCell b))"
proof (induction b t and b t r c n rule: solveSudoku_solveFrom.pinduct)
  case (1 board onStep)
  show ?case
  proof (intro allI impI)
    fix b' tr assume res: "solveSudoku board onStep = Inr (False, b', tr)"
    from res 1(1) obtain row col where fe: "findEmpty board = Inr (Some (row, col))"
      and lp: "solveFrom board onStep row col 1 = Inr (False, b', tr)"
      by (auto simp: solveSudoku.psimps split: sum.splits option.splits)
    from 1(2)[OF fe refl refl] lp
    have "cellsWhere isEmptyCell b' \<subseteq> insert (row, col) (cellsWhere isEmptyCell board)"
      by blast
    with findEmpty_cellsWhere[OF fe]
    show "cellsWhere isEmptyCell b' \<subseteq> cellsWhere isEmptyCell board" by auto
  qed
next
  case (2 board onStep row col num)
  show ?case
  proof (intro allI impI)
    fix b' tr assume res: "solveFrom board onStep row col num = Inr (False, b', tr)"
    show "cellsWhere isEmptyCell b' \<subseteq> insert (row, col) (cellsWhere isEmptyCell board)"
    proof (cases "9 < num")
      case True
      with res 2(1) show ?thesis by (auto simp: solveFrom.psimps)
    next
      case le: False
      then obtain ok where iv: "isValid board row col (int num) = Inr ok"
        using res 2(1) by (auto simp: solveFrom.psimps split: sum.splits)
      show ?thesis
      proof (cases ok)
        case False
        with res 2(1) le iv have "solveFrom board onStep row col (num + 1) = Inr (False, b', tr)"
          by (simp add: solveFrom.psimps)
        moreover from False have "ok = False" by simp
        ultimately show ?thesis using 2(4)[OF le iv] by blast
      next
        case True
        with res 2(1) le iv obtain b1 b2 b3 t2 t3 where
          w1: "wr board row col (Num (int num)) = Inr b1" and
          s: "solveSudoku b1 onStep = Inr (False, b2, t2)" and
          w2: "wr b2 row col Null = Inr b3" and
          r: "solveFrom b3 onStep row col (num + 1) = Inr (False, b', t3)"
          by (auto simp: solveFrom.psimps split: sum.splits bool.splits prod.splits)
        from True have okT: "ok = True" by simp
        from 2(2)[OF le iv okT w1] s
        have "cellsWhere isEmptyCell b2 \<subseteq> cellsWhere isEmptyCell b1" by blast
        moreover from 2(3)[OF le iv okT w1 s refl _ refl w2] r
        have "cellsWhere isEmptyCell b' \<subseteq> insert (row, col) (cellsWhere isEmptyCell b3)"
          by blast
        moreover have "cellsWhere isEmptyCell b1 - {(row, col)}
            = cellsWhere isEmptyCell board - {(row, col)}"
          by (rule wr_cellsWhere_other[OF w1]) simp
        moreover have "cellsWhere isEmptyCell b3 - {(row, col)}
            = cellsWhere isEmptyCell b2 - {(row, col)}"
          by (rule wr_cellsWhere_other[OF w2]) simp
        ultimately show ?thesis by blast
      qed
    qed
  qed
qed

termination solveSudoku
proof (relation "measure (\<lambda>x. case x of
          Inl (b, t) \<Rightarrow> 20 * card (cellsWhere isEmptyCell b)
        | Inr (b, t, r, c, n) \<Rightarrow>
            20 * card (cellsWhere isEmptyCell b - {(r, c)}) + (20 - n)
              + (if n = 0 then 21 else 0))", goal_cases)
  case 1
  then show ?case by simp
next
  case (2 board onStep b x2 x y)
  then have "(x, y) \<in> cellsWhere isEmptyCell board"
    using findEmpty_cellsWhere by auto
  then have "card (cellsWhere isEmptyCell board - {(x, y)}) < card (cellsWhere isEmptyCell board)"
    by (rule card_Diff1_less[OF finite_cellsWhere])
  then show ?case by simp
next
  case (3 board onStep row col num b ba)
  have eq: "cellsWhere isEmptyCell ba - {(row, col)} = cellsWhere isEmptyCell board - {(row, col)}"
    by (rule wr_cellsWhere_other[OF 3(4)]) simp
  show ?case
  proof (cases "num = 0")
    case True
    with card_cellsWhere_le[of isEmptyCell ba "(row, col)"] eq show ?thesis by simp
  next
    case False
    then have "cellsWhere isEmptyCell ba = cellsWhere isEmptyCell board - {(row, col)}"
      using wr_cellsWhere_filled[OF 3(4), of isEmptyCell] by simp
    with False 3(1) show ?thesis by simp
  qed
next
  case (4 board onStep row col num b ba bb x y xa ya bc)
  then have "cellsWhere isEmptyCell xa \<subseteq> cellsWhere isEmptyCell ba"
    using solveSudoku_partial_frame(1) by blast
  moreover have "cellsWhere isEmptyCell ba - {(row, col)}
      = cellsWhere isEmptyCell board - {(row, col)}"
    by (rule wr_cellsWhere_other[OF 4(4)]) simp
  moreover have "cellsWhere isEmptyCell bc - {(row, col)}
      = cellsWhere isEmptyCell xa - {(row, col)}"
    using 4 by (intro wr_cellsWhere_other[of xa row col Null bc]) auto
  ultimately have "cellsWhere isEmptyCell bc - {(row, col)}
      \<subseteq> cellsWhere isEmptyCell board - {(row, col)}" by blast
  then have "card (cellsWhere isEmptyCell bc - {(row, col)})
      \<le> card (cellsWhere isEmptyCell board - {(row, col)})"
    by (simp add: card_mono finite_cellsWhere)
  then show ?case using 4(1) by auto
next
  case (5 board onStep row col num b)
  then show ?case by auto
qed

declare solveSudoku.simps [simp del] solveFrom.simps [simp del]

section \<open>Boards of nine rows of nine cells\<close>

definition shape9 :: "board \<Rightarrow> bool" where
  "shape9 board \<longleftrightarrow> length board = 9 \<and> list_all (\<lambda>r. length r = 9) board"

definition put :: "board \<Rightarrow> nat \<Rightarrow> nat \<Rightarrow> cell \<Rightarrow> board" where
  "put board i j v = board[i := (board ! i)[j := v]]"

text \<open>
  \<open>inUnit row col i j\<close>: the cell \<open>(i, j)\<close> lies in the row, the column or the
  3\<times>3 box of \<open>(row, col)\<close>.
\<close>

definition inUnit :: "nat \<Rightarrow> nat \<Rightarrow> nat \<Rightarrow> nat \<Rightarrow> bool" where
  "inUnit row col i j \<longleftrightarrow>
     i < 9 \<and> j < 9 \<and> (i = row \<or> j = col \<or> (i div 3 = row div 3 \<and> j div 3 = col div 3))"

lemma shape9_iff: "shape9 b \<longleftrightarrow> length b = 9 \<and> (\<forall>i<9. length (b ! i) = 9)"
  unfolding shape9_def list_all_length by auto

lemma shape9_row: "shape9 b \<Longrightarrow> i < 9 \<Longrightarrow> length (b ! i) = 9"
  by (simp add: shape9_iff)

lemma shape9_length: "shape9 b \<Longrightarrow> length b = 9"
  by (simp add: shape9_iff)

lemma rd_shape9: "shape9 b \<Longrightarrow> i < 9 \<Longrightarrow> j < 9 \<Longrightarrow> rd b i j = Inr (b ! i ! j)"
  by (simp add: rd_def shape9_iff)

lemma wr_shape9: "shape9 b \<Longrightarrow> i < 9 \<Longrightarrow> j < 9 \<Longrightarrow> wr b i j v = Inr (put b i j v)"
  by (simp add: wr_def setAt_def put_def shape9_iff)

lemma shape9_put: "shape9 b \<Longrightarrow> shape9 (put b i j v)"
  unfolding shape9_iff put_def by (cases "i < 9") (auto simp: nth_list_update)

lemma nth_put:
  "shape9 b \<Longrightarrow> i < 9 \<Longrightarrow> j < 9 \<Longrightarrow> p < 9 \<Longrightarrow> q < 9 \<Longrightarrow>
   put b i j v ! p ! q = (if p = i \<and> q = j then v else b ! p ! q)"
  by (simp add: put_def shape9_iff nth_list_update)

lemma board_eqI:
  assumes "shape9 a" and "shape9 b"
    and "\<And>i j. i < 9 \<Longrightarrow> j < 9 \<Longrightarrow> a ! i ! j = b ! i ! j"
  shows "a = b"
proof (rule nth_equalityI)
  show "length a = length b" using assms(1,2) by (simp add: shape9_length)
next
  fix i assume "i < length a"
  with assms(1) have i: "i < 9" by (simp add: shape9_length)
  show "a ! i = b ! i"
  proof (rule nth_equalityI)
    show "length (a ! i) = length (b ! i)" using assms(1,2) i by (simp add: shape9_row)
  next
    fix j assume "j < length (a ! i)"
    with assms(1) i have "j < 9" by (simp add: shape9_row)
    with i show "a ! i ! j = b ! i ! j" by (rule assms(3))
  qed
qed

lemma put_same: "shape9 b \<Longrightarrow> i < 9 \<Longrightarrow> j < 9 \<Longrightarrow> put (put b i j v) i j (b ! i ! j) = b"
  by (rule board_eqI) (simp_all add: shape9_put nth_put)

lemma scan_shape9:
  "shape9 b \<Longrightarrow> \<forall>(i, j) \<in> set ps. i < 9 \<and> j < 9 \<Longrightarrow>
   scan b d ps = Inr (\<exists>(i, j) \<in> set ps. b ! i ! j = Num d)"
  by (induction b d ps rule: scan.induct) (auto simp: rd_shape9)

lemma sub_mod3: "row - row mod 3 = 3 * (row div 3)" for row :: nat
  by (simp add: minus_mod_eq_mult_div)

lemma box_index: "row < 9 \<Longrightarrow> (\<exists>i<3. p = i + (row - row mod 3)) \<longleftrightarrow> (p < 9 \<and> p div 3 = row div 3)"
  for p row :: nat
proof -
  assume row: "row < 9"
  then have d: "row div 3 < 3" by (simp add: less_mult_imp_div_less)
  show ?thesis
  proof
    assume "\<exists>i<3. p = i + (row - row mod 3)"
    then obtain i where i: "i < 3" and p: "p = i + 3 * (row div 3)"
      by (auto simp: sub_mod3)
    from i have "p div 3 = row div 3" by (simp add: p)
    moreover from i d have "p < 9" by (simp add: p)
    ultimately show "p < 9 \<and> p div 3 = row div 3" by simp
  next
    assume a: "p < 9 \<and> p div 3 = row div 3"
    have "p = p mod 3 + 3 * (p div 3)" by simp
    with a have "p = p mod 3 + (row - row mod 3)" by (simp add: sub_mod3)
    moreover have "p mod 3 < 3" by simp
    ultimately show "\<exists>i<3. p = i + (row - row mod 3)" by blast
  qed
qed

lemma set_rowCells: "set (map (\<lambda>x. (row, x)) [0..<n]) = {(i, j). i = row \<and> j < n}"
  by auto

lemma set_colCells: "set (map (\<lambda>x. (x, col)) [0..<n]) = {(i, j). i < n \<and> j = col}"
  by auto

lemma set_boxCells:
  "set (concat (map (\<lambda>i. map (\<lambda>j. (i + a, j + c)) [0..<n]) [0..<m]))
     = {(p, q). (\<exists>i<m. p = i + a) \<and> (\<exists>j<n. q = j + c)}"
  by auto

lemma set_box3:
  assumes "row < 9" and "col < 9"
  shows "set (concat (map (\<lambda>i. map (\<lambda>j. (i + (row - row mod 3), j + (col - col mod 3))) [0..<3])
            [0..<3]))
     = {(p, q). (p < 9 \<and> p div 3 = row div 3) \<and> (q < 9 \<and> q div 3 = col div 3)}"
  apply (subst set_boxCells)
  apply (simp only: box_index[OF assms(1)] box_index[OF assms(2)])
  done

lemma isValid_shape9:
  assumes "shape9 b" and "row < 9" and "col < 9"
  shows "isValid b row col d = Inr (\<not> (\<exists>i j. inUnit row col i j \<and> b ! i ! j = Num d))"
proof -
  define rows where "rows = map (\<lambda>x. (row, x)) [0..<9]"
  define cols where "cols = map (\<lambda>x. (x, col)) [0..<9]"
  define box where "box =
    concat (map (\<lambda>i. map (\<lambda>j. (i + (row - row mod 3), j + (col - col mod 3))) [0..<3]) [0..<3])"
  have srows: "set rows = {(i, j). i = row \<and> j < 9}"
    unfolding rows_def by (rule set_rowCells)
  have scols: "set cols = {(i, j). i < 9 \<and> j = col}"
    unfolding cols_def by (rule set_colCells)
  have sbox: "set box = {(p, q). (p < 9 \<and> p div 3 = row div 3) \<and> (q < 9 \<and> q div 3 = col div 3)}"
    unfolding box_def by (rule set_box3[OF assms(2,3)])
  have r: "scan b d rows = Inr (\<exists>(i, j) \<in> set rows. b ! i ! j = Num d)"
    by (rule scan_shape9[OF assms(1)]) (simp add: srows assms(2))
  have c: "scan b d cols = Inr (\<exists>(i, j) \<in> set cols. b ! i ! j = Num d)"
    by (rule scan_shape9[OF assms(1)]) (simp add: scols assms(3))
  have x: "scan b d box = Inr (\<exists>(i, j) \<in> set box. b ! i ! j = Num d)"
    by (rule scan_shape9[OF assms(1)]) (simp add: sbox)
  have "(\<exists>i j. inUnit row col i j \<and> b ! i ! j = Num d) \<longleftrightarrow>
      (\<exists>(i, j) \<in> set rows. b ! i ! j = Num d) \<or> (\<exists>(i, j) \<in> set cols. b ! i ! j = Num d) \<or>
      (\<exists>(i, j) \<in> set box. b ! i ! j = Num d)"
    using assms(2,3) unfolding inUnit_def srows scols sbox by auto
  moreover have "isValid b row col d =
      Inr (\<not> ((\<exists>(i, j) \<in> set rows. b ! i ! j = Num d) \<or> (\<exists>(i, j) \<in> set cols. b ! i ! j = Num d) \<or>
      (\<exists>(i, j) \<in> set box. b ! i ! j = Num d)))"
    unfolding isValid_def Let_def rows_def[symmetric] cols_def[symmetric] box_def[symmetric] r c x
    by (simp split: bool.splits)
  ultimately show ?thesis by simp
qed

lemma set_allCells: "set allCells = {(i, j). i < 9 \<and> j < 9}"
proof -
  have "set allCells = {(p, q). (\<exists>i<9. p = i + 0) \<and> (\<exists>j<9. q = j + 0)}"
    unfolding allCells_def using set_boxCells[of 0 0 9 9] by simp
  then show ?thesis by simp
qed

lemma findEmptyIn_None:
  "shape9 b \<Longrightarrow> \<forall>(i, j) \<in> set ps. i < 9 \<and> j < 9 \<Longrightarrow>
   findEmptyIn b ps = Inr None \<longleftrightarrow> (\<forall>(i, j) \<in> set ps. \<not> isEmptyCell (b ! i ! j))"
  by (induction b ps rule: findEmptyIn.induct) (auto simp: rd_shape9)

lemma findEmptyIn_total:
  "shape9 b \<Longrightarrow> \<forall>(i, j) \<in> set ps. i < 9 \<and> j < 9 \<Longrightarrow> \<exists>r. findEmptyIn b ps = Inr r"
  by (induction b ps rule: findEmptyIn.induct) (auto simp: rd_shape9)

lemma findEmpty_None:
  "shape9 b \<Longrightarrow> findEmpty b = Inr None \<longleftrightarrow> (\<forall>i<9. \<forall>j<9. \<not> isEmptyCell (b ! i ! j))"
  unfolding findEmpty_def by (subst findEmptyIn_None) (auto simp: set_allCells)

lemma findEmpty_total: "shape9 b \<Longrightarrow> \<exists>r. findEmpty b = Inr r"
  unfolding findEmpty_def by (rule findEmptyIn_total) (auto simp: set_allCells)

lemma findEmpty_Some:
  assumes "shape9 b" and "findEmpty b = Inr (Some (i, j))"
  shows "i < 9 \<and> j < 9 \<and> isEmptyCell (b ! i ! j)"
proof -
  from assms(2) have "(i, j) \<in> set allCells" and "\<exists>v. rd b i j = Inr v \<and> isEmptyCell v"
    unfolding findEmpty_def using findEmptyIn_Some by blast+
  then show ?thesis using assms(1) by (auto simp: set_allCells rd_shape9)
qed

section \<open>What the search leaves on a 9\<times>9 board\<close>

text \<open>
  \<open>nulled b b'\<close>: \<open>b'\<close> is \<open>b\<close>, except that cells that were empty in \<open>b\<close> may now hold
  \<open>null\<close>. \<open>placedOk b i j\<close>: the cell holds a digit from 1 to 9 that no other cell of
  its row, column or box holds. \<open>solvedFrom b b'\<close>: the filled cells of \<open>b\<close> are unchanged
  in \<open>b'\<close> and every cell that was empty in \<open>b\<close> is \<open>placedOk\<close> in \<open>b'\<close>.
\<close>

definition nulled :: "board \<Rightarrow> board \<Rightarrow> bool" where
  "nulled b b' \<longleftrightarrow>
     (\<forall>i<9. \<forall>j<9. b' ! i ! j = b ! i ! j \<or> (isEmptyCell (b ! i ! j) \<and> b' ! i ! j = Null))"

definition placedOk :: "board \<Rightarrow> nat \<Rightarrow> nat \<Rightarrow> bool" where
  "placedOk b i j \<longleftrightarrow>
     (\<exists>d. 1 \<le> d \<and> d \<le> 9 \<and> b ! i ! j = Num d \<and>
          (\<forall>p q. inUnit i j p q \<and> (p, q) \<noteq> (i, j) \<longrightarrow> b ! p ! q \<noteq> Num d))"

definition solvedFrom :: "board \<Rightarrow> board \<Rightarrow> bool" where
  "solvedFrom b b' \<longleftrightarrow>
     (\<forall>i<9. \<forall>j<9. if isEmptyCell (b ! i ! j) then placedOk b' i j else b' ! i ! j = b ! i ! j)"

definition outcome :: "board \<Rightarrow> bool \<Rightarrow> board \<Rightarrow> bool" where
  "outcome b ok b' \<longleftrightarrow> shape9 b' \<and> (if ok then solvedFrom b b' else nulled b b')"

lemma nulled_refl: "nulled b b"
  by (simp add: nulled_def)

lemma nulled_empty: "nulled b b' \<Longrightarrow> i < 9 \<Longrightarrow> j < 9 \<Longrightarrow> isEmptyCell (b' ! i ! j) = isEmptyCell (b ! i ! j)"
  unfolding nulled_def by (metis isEmptyCell_simps(2))

lemma nulled_filled: "nulled b b' \<Longrightarrow> i < 9 \<Longrightarrow> j < 9 \<Longrightarrow> \<not> isEmptyCell (b ! i ! j) \<Longrightarrow> b' ! i ! j = b ! i ! j"
  unfolding nulled_def by blast

lemma nulled_trans:
  assumes "nulled a b" and "nulled b c"
  shows "nulled a c"
  unfolding nulled_def
proof (intro allI impI)
  fix i j :: nat assume i: "i < 9" and j: "j < 9"
  from assms(1) i j have 1: "b ! i ! j = a ! i ! j \<or> (isEmptyCell (a ! i ! j) \<and> b ! i ! j = Null)"
    by (simp add: nulled_def)
  from assms(2) i j have 2: "c ! i ! j = b ! i ! j \<or> (isEmptyCell (b ! i ! j) \<and> c ! i ! j = Null)"
    by (simp add: nulled_def)
  from nulled_empty[OF assms(1) i j] 1 2
  show "c ! i ! j = a ! i ! j \<or> (isEmptyCell (a ! i ! j) \<and> c ! i ! j = Null)"
    by auto
qed

lemma outcome_nulled:
  assumes "nulled b b3" and "outcome b3 ok b'"
  shows "outcome b ok b'"
proof (cases ok)
  case True
  with assms(2) have s: "shape9 b'" and sf: "solvedFrom b3 b'" by (simp_all add: outcome_def)
  have "solvedFrom b b'"
    unfolding solvedFrom_def
  proof (intro allI impI)
    fix i j :: nat assume i: "i < 9" and j: "j < 9"
    from sf i j have x: "if isEmptyCell (b3 ! i ! j) then placedOk b' i j else b' ! i ! j = b3 ! i ! j"
      by (simp add: solvedFrom_def)
    show "if isEmptyCell (b ! i ! j) then placedOk b' i j else b' ! i ! j = b ! i ! j"
      using x nulled_empty[OF assms(1) i j] nulled_filled[OF assms(1) i j] by auto
  qed
  with s True show ?thesis by (simp add: outcome_def)
next
  case False
  with assms(2) have "shape9 b'" and "nulled b3 b'" by (simp_all add: outcome_def)
  with nulled_trans[OF assms(1)] False show ?thesis by (simp add: outcome_def)
qed

lemma inUnit_sym: "inUnit i j p q \<Longrightarrow> i < 9 \<Longrightarrow> j < 9 \<Longrightarrow> inUnit p q i j"
  unfolding inUnit_def by auto

lemma step_success:
  assumes s: "shape9 b" and r: "r < 9" and c: "c < 9" and e: "isEmptyCell (b ! r ! c)"
    and n: "1 \<le> n" "n \<le> 9"
    and v: "\<not> (\<exists>i j. inUnit r c i j \<and> b ! i ! j = Num n)"
    and sf: "solvedFrom (put b r c (Num n)) b2"
  shows "solvedFrom b b2"
  unfolding solvedFrom_def
proof (intro allI impI)
  fix i j :: nat assume i: "i < 9" and j: "j < 9"
  let ?b1 = "put b r c (Num n)"
  have b1: "?b1 ! p ! q = (if p = r \<and> q = c then Num n else b ! p ! q)" if "p < 9" "q < 9" for p q
    using nth_put[OF s r c that] .
  have sf': "if isEmptyCell (?b1 ! p ! q) then placedOk b2 p q else b2 ! p ! q = ?b1 ! p ! q"
    if "p < 9" "q < 9" for p q
    using sf that by (simp add: solvedFrom_def)
  show "if isEmptyCell (b ! i ! j) then placedOk b2 i j else b2 ! i ! j = b ! i ! j"
  proof (cases "i = r \<and> j = c")
    case False
    with sf'[OF i j] b1[OF i j] show ?thesis by auto
  next
    case True
    from sf'[OF r c] b1[OF r c] n have here: "b2 ! r ! c = Num n" by simp
    have "b2 ! p ! q \<noteq> Num n" if u: "inUnit r c p q" and ne: "(p, q) \<noteq> (r, c)" for p q
    proof -
      from u have p: "p < 9" and q: "q < 9" by (simp_all add: inUnit_def)
      from ne have b1pq: "?b1 ! p ! q = b ! p ! q" using b1[OF p q] by auto
      show ?thesis
      proof (cases "isEmptyCell (b ! p ! q)")
        case True
        with sf'[OF p q] b1pq have "placedOk b2 p q" by simp
        then obtain d where d: "b2 ! p ! q = Num d"
          and all: "\<forall>x y. inUnit p q x y \<and> (x, y) \<noteq> (p, q) \<longrightarrow> b2 ! x ! y \<noteq> Num d"
          unfolding placedOk_def by blast
        from inUnit_sym[OF u r c] ne all have "b2 ! r ! c \<noteq> Num d" by blast
        with here d show ?thesis by auto
      next
        case False
        with sf'[OF p q] b1pq have "b2 ! p ! q = b ! p ! q" by simp
        with v u show ?thesis by auto
      qed
    qed
    with here n have "placedOk b2 r c" unfolding placedOk_def by blast
    with True e show ?thesis by simp
  qed
qed

lemma step_failure:
  assumes s: "shape9 b" and s2: "shape9 b2" and r: "r < 9" and c: "c < 9"
    and e: "isEmptyCell (b ! r ! c)"
    and nl: "nulled (put b r c v) b2"
  shows "nulled b (put b2 r c Null)"
  unfolding nulled_def
proof (intro allI impI)
  fix i j :: nat assume i: "i < 9" and j: "j < 9"
  from nl i j have x: "b2 ! i ! j = put b r c v ! i ! j \<or>
      (isEmptyCell (put b r c v ! i ! j) \<and> b2 ! i ! j = Null)"
    by (simp add: nulled_def)
  show "put b2 r c Null ! i ! j = b ! i ! j \<or>
      (isEmptyCell (b ! i ! j) \<and> put b2 r c Null ! i ! j = Null)"
    using x e by (auto simp: nth_put[OF s r c i j] nth_put[OF s2 r c i j] split: if_splits)
qed

lemma solveSudokuInstant_outcome:
  "shape9 b \<Longrightarrow> \<exists>ok b'. solveSudokuInstant b = Inr (ok, b') \<and> outcome b ok b'"
  "shape9 b \<Longrightarrow> r < 9 \<Longrightarrow> c < 9 \<Longrightarrow> isEmptyCell (b ! r ! c) \<Longrightarrow> 1 \<le> n \<Longrightarrow>
     \<exists>ok b'. solveInstantFrom b r c n = Inr (ok, b') \<and> outcome b ok b'"
proof (induction b and b r c n rule: solveSudokuInstant_solveInstantFrom.induct)
  case (1 board)
  note s = \<open>shape9 board\<close>
  from findEmpty_total[OF s] obtain fe where fe: "findEmpty board = Inr fe" by blast
  show ?case
  proof (cases fe)
    case None
    with fe s have full: "\<forall>i<9. \<forall>j<9. \<not> isEmptyCell (board ! i ! j)"
      by (simp add: findEmpty_None)
    then have "solvedFrom board board" by (simp add: solvedFrom_def)
    with s have "outcome board True board" by (simp add: outcome_def)
    moreover from None fe have "solveSudokuInstant board = Inr (True, board)"
      by (subst solveSudokuInstant.simps) simp
    ultimately show ?thesis by blast
  next
    case (Some pos)
    obtain row col where pos: "pos = (row, col)" by (cases pos)
    with Some fe have fe': "findEmpty board = Inr (Some (row, col))" by simp
    from findEmpty_Some[OF s fe'] have rc: "row < 9" "col < 9" "isEmptyCell (board ! row ! col)"
      by simp_all
    have "solveSudokuInstant board = solveInstantFrom board row col 1"
      by (subst solveSudokuInstant.simps) (simp add: fe')
    with "1.IH"[OF fe' refl refl s rc] show ?thesis by simp
  qed
next
  case (2 board row col num)
  note s = \<open>shape9 board\<close> and r = \<open>row < 9\<close> and c = \<open>col < 9\<close>
    and e = \<open>isEmptyCell (board ! row ! col)\<close> and n1 = \<open>1 \<le> num\<close>
  show ?case
  proof (cases "9 < num")
    case True
    then have "solveInstantFrom board row col num = Inr (False, board)"
      by (subst solveInstantFrom.simps) simp
    moreover from s have "outcome board False board" by (simp add: outcome_def nulled_refl)
    ultimately show ?thesis by blast
  next
    case le: False
    obtain v where iv: "isValid board row col (int num) = Inr v"
      and v: "v \<longleftrightarrow> \<not> (\<exists>i j. inUnit row col i j \<and> board ! i ! j = Num (int num))"
      using isValid_shape9[OF s r c] by blast
    show ?thesis
    proof (cases v)
      case False
      then have vF: "v = False" by simp
      have "solveInstantFrom board row col num = solveInstantFrom board row col (num + 1)"
        by (subst solveInstantFrom.simps) (simp add: le iv vF)
      with "2.IH"(3)[OF le iv vF s r c e] show ?thesis by simp
    next
      case True
      then have vT: "v = True" by simp
      let ?b1 = "put board row col (Num (int num))"
      have w1: "wr board row col (Num (int num)) = Inr ?b1" by (rule wr_shape9[OF s r c])
      have s1: "shape9 ?b1" by (rule shape9_put[OF s])
      from "2.IH"(1)[OF le iv vT w1 s1] obtain ok1 b2 where
        sol: "solveSudokuInstant ?b1 = Inr (ok1, b2)" and out: "outcome ?b1 ok1 b2"
        by blast
      from out have s2: "shape9 b2" by (simp add: outcome_def)
      show ?thesis
      proof (cases ok1)
        case ok: True
        with out have "solvedFrom ?b1 b2" by (simp add: outcome_def)
        from step_success[OF s r c e _ _ _ this] n1 le v True
        have "solvedFrom board b2" by simp
        with s2 have "outcome board True b2" by (simp add: outcome_def)
        moreover have "solveInstantFrom board row col num = Inr (True, b2)"
          by (subst solveInstantFrom.simps) (simp add: le iv vT w1 sol ok)
        ultimately show ?thesis by blast
      next
        case nok: False
        let ?b3 = "put b2 row col Null"
        have w2: "wr b2 row col Null = Inr ?b3" by (rule wr_shape9[OF s2 r c])
        have s3: "shape9 ?b3" by (rule shape9_put[OF s2])
        have e3: "isEmptyCell (?b3 ! row ! col)" by (simp add: nth_put[OF s2 r c r c])
        from nok sol have sol': "solveSudokuInstant ?b1 = Inr (False, b2)" by simp
        from n1 have n2: "1 \<le> num + 1" by simp
        from "2.IH"(2)[OF le iv vT w1 sol' refl refl w2 s3 r c e3 n2] obtain ok b' where
          rest: "solveInstantFrom ?b3 row col (num + 1) = Inr (ok, b')" and out3: "outcome ?b3 ok b'"
          by blast
        from nok out have "nulled ?b1 b2" by (simp add: outcome_def)
        from step_failure[OF s s2 r c e this] have "nulled board ?b3" .
        from outcome_nulled[OF this out3] have "outcome board ok b'" .
        moreover have "solveInstantFrom board row col num = Inr (ok, b')"
          using rest by (subst solveInstantFrom.simps) (simp add: le iv vT w1 sol' w2)
        ultimately show ?thesis by blast
      qed
    qed
  qed
qed

section \<open>Boards used as examples\<close>

text \<open>
  \<open>solvedExample\<close> is the completion of the bundled \<open>examplePuzzle\<close>. \<open>clashBoard\<close> is
  the same grid with a second 3 written into the first row. \<open>lastCellOpen\<close> is the
  completed grid with its last cell cleared.
\<close>

definition solvedExample :: board where
  "solvedExample =
    [[Num 5, Num 3, Num 4, Num 6, Num 7, Num 8, Num 9, Num 1, Num 2],
     [Num 6, Num 7, Num 2, Num 1, Num 9, Num 5, Num 3, Num 4, Num 8],
     [Num 1, Num 9, Num 8, Num 3, Num 4, Num 2, Num 5, Num 6, Num 7],
     [Num 8, Num 5, Num 9, Num 7, Num 6, Num 1, Num 4, Num 2, Num 3],
     [Num 4, Num 2, Num 6, Num 8, Num 5, Num 3, Num 7, Num 9, Num 1],
     [Num 7, Num 1, Num 3, Num 9, Num 2, Num 4, Num 8, Num 5, Num 6],
     [Num 9, Num 6, Num 1, Num 5, Num 3, Num 7, Num 2, Num 8, Num 4],
     [Num 2, Num 8, Num 7, Num 4, Num 1, Num 9, Num 6, Num 3, Num 5],
     [Num 3, Num 4, Num 5, Num 2, Num 8, Num 6, Num 1, Num 7, Num 9]]"

definition clashBoard :: board where
  "clashBoard =
    [[Num 3, Num 3, Num 4, Num 6, Num 7, Num 8, Num 9, Num 1, Num 2],
     [Num 6, Num 7, Num 2, Num 1, Num 9, Num 5, Num 3, Num 4, Num 8],
     [Num 1, Num 9, Num 8, Num 3, Num 4, Num 2, Num 5, Num 6, Num 7],
     [Num 8, Num 5, Num 9, Num 7, Num 6, Num 1, Num 4, Num 2, Num 3],
     [Num 4, Num 2, Num 6, Num 8, Num 5, Num 3, Num 7, Num 9, Num 1],
     [Num 7, Num 1, Num 3, Num 9, Num 2, Num 4, Num 8, Num 5, Num 6],
     [Num 9, Num 6, Num 1, Num 5, Num 3, Num 7, Num 2, Num 8, Num 4],
     [Num 2, Num 8, Num 7, Num 4, Num 1, Num 9, Num 6, Num 3, Num 5],
     [Num 3, Num 4, Num 5, Num 2, Num 8, Num 6, Num 1, Num 7, Num 9]]"

definition lastCellOpen :: board where
  "lastCellOpen =
    [[Num 5, Num 3, Num 4, Num 6, Num 7, Num 8, Num 9, Num 1, Num 2],
     [Num 6, Num 7, Num 2, Num 1, Num 9, Num 5, Num 3, Num 4, Num 8],
     [Num 1, Num 9, Num 8, Num 3, Num 4, Num 2, Num 5, Num 6, Num 7],
     [Num 8, Num 5, Num 9, Num 7, Num 6, Num 1, Num 4, Num 2, Num 3],
     [Num 4, Num 2, Num 6, Num 8, Num 5, Num 3, Num 7, Num 9, Num 1],
     [Num 7, Num 1, Num 3, Num 9, Num 2, Num 4, Num 8, Num 5, Num 6],
     [Num 9, Num 6, Num 1, Num 5, Num 3, Num 7, Num 2, Num 8, Num 4],
     [Num 2, Num 8, Num 7, Num 4, Num 1, Num 9, Num 6, Num 3, Num 5],
     [Num 3, Num 4, Num 5, Num 2, Num 8, Num 6, Num 1, Num 7, Null]]"

text \<open>
  \<open>deadEnd\<close>: the first cell can only take 1 or 2 and the second cell then has no digit
  left, so the search fails after two placements. \<open>deadEndZero\<close> is the same board with
  the first cell written as \<open>0\<close>, which \<open>findEmpty\<close> also reads as empty;
  \<open>deadEndZeroAfter\<close> is that board with the first cell \<open>null\<close>.
\<close>

definition deadEnd :: board where
  "deadEnd =
    [[Null, Null, Num 3, Num 4, Num 5, Num 6, Num 7, Num 8, Num 9],
     [Null, Null, Null, Null, Null, Null, Null, Null, Null],
     [Null, Null, Null, Null, Null, Null, Null, Null, Null],
     [Null, Num 1, Null, Null, Null, Null, Null, Null, Null],
     [Null, Num 2, Null, Null, Null, Null, Null, Null, Null],
     [Null, Null, Null, Null, Null, Null, Null, Null, Null],
     [Null, Null, Null, Null, Null, Null, Null, Null, Null],
     [Null, Null, Null, Null, Null, Null, Null, Null, Null],
     [Null, Null, Null, Null, Null, Null, Null, Null, Null]]"

definition deadEndZero :: board where
  "deadEndZero =
    [[Num 0, Null, Num 3, Num 4, Num 5, Num 6, Num 7, Num 8, Num 9],
     [Null, Null, Null, Null, Null, Null, Null, Null, Null],
     [Null, Null, Null, Null, Null, Null, Null, Null, Null],
     [Null, Num 1, Null, Null, Null, Null, Null, Null, Null],
     [Null, Num 2, Null, Null, Null, Null, Null, Null, Null],
     [Null, Null, Null, Null, Null, Null, Null, Null, Null],
     [Null, Null, Null, Null, Null, Null, Null, Null, Null],
     [Null, Null, Null, Null, Null, Null, Null, Null, Null],
     [Null, Null, Null, Null, Null, Null, Null, Null, Null]]"

definition deadEndZeroAfter :: board where
  "deadEndZeroAfter =
    [[Null, Null, Num 3, Num 4, Num 5, Num 6, Num 7, Num 8, Num 9],
     [Null, Null, Null, Null, Null, Null, Null, Null, Null],
     [Null, Null, Null, Null, Null, Null, Null, Null, Null],
     [Null, Num 1, Null, Null, Null, Null, Null, Null, Null],
     [Null, Num 2, Null, Null, Null, Null, Null, Null, Null],
     [Null, Null, Null, Null, Null, Null, Null, Null, Null],
     [Null, Null, Null, Null, Null, Null, Null, Null, Null],
     [Null, Null, Null, Null, Null, Null, Null, Null, Null],
     [Null, Null, Null, Null, Null, Null, Null, Null, Null]]"

text \<open>
  A statement about all 81 cells of a given board is checked by running through
  \<open>allCells\<close>.
\<close>

lemma all_cells_iff: "(\<forall>i<9. \<forall>j<9. P i j) \<longleftrightarrow> list_all (\<lambda>(i, j). P i j) allCells"
  by (auto simp: list_all_iff set_allCells)

section \<open>solveSudokuInstant on a board without an empty cell\<close>

text \<open>
  C10. On a 9\<times>9 board with no empty cell (no \<open>null\<close>, no 0) \<open>solveSudokuInstant\<close> returns
  true at once and leaves the board as it is, whatever the cells hold: the values already
  on the board are never checked against each other. Hence a result of false always
  comes from the digit loop at an empty cell: the first empty cell exists and the loop
  over 1..9 at that cell ended without success.
\<close>

theorem solveSudokuInstant_full_board:
  assumes "shape9 board"
  shows "((\<forall>i<9. \<forall>j<9. \<not> isEmptyCell (board ! i ! j)) \<longrightarrow>
            solveSudokuInstant board = Inr (True, board))
       \<and> (\<forall>b'. solveSudokuInstant board = Inr (False, b') \<longrightarrow>
            (\<exists>row<9. \<exists>col<9. isEmptyCell (board ! row ! col)
               \<and> findEmpty board = Inr (Some (row, col))
               \<and> solveInstantFrom board row col 1 = Inr (False, b')))"
proof (intro conjI impI allI)
  assume "\<forall>i<9. \<forall>j<9. \<not> isEmptyCell (board ! i ! j)"
  with assms have "findEmpty board = Inr None" by (simp add: findEmpty_None)
  then show "solveSudokuInstant board = Inr (True, board)"
    by (subst solveSudokuInstant.simps) simp
next
  fix b' assume res: "solveSudokuInstant board = Inr (False, b')"
  from findEmpty_total[OF assms] obtain fe where fe: "findEmpty board = Inr fe" by blast
  show "\<exists>row<9. \<exists>col<9. isEmptyCell (board ! row ! col)
          \<and> findEmpty board = Inr (Some (row, col))
          \<and> solveInstantFrom board row col 1 = Inr (False, b')"
  proof (cases fe)
    case None
    with fe have "solveSudokuInstant board = Inr (True, board)"
      by (subst solveSudokuInstant.simps) simp
    with res show ?thesis by simp
  next
    case (Some pos)
    obtain row col where "pos = (row, col)" by (cases pos)
    with Some fe have fe': "findEmpty board = Inr (Some (row, col))" by simp
    have "solveSudokuInstant board = solveInstantFrom board row col 1"
      by (subst solveSudokuInstant.simps) (simp add: fe')
    with res findEmpty_Some[OF assms fe'] fe' show ?thesis by auto
  qed
qed

theorem solveSudokuInstant_full_board_witness:
  "shape9 clashBoard \<and> clashBoard ! 0 ! 0 = clashBoard ! 0 ! 1
     \<and> solveSudokuInstant clashBoard = Inr (True, clashBoard)"
proof -
  have s: "shape9 clashBoard" by code_simp
  have "list_all (\<lambda>(i, j). \<not> isEmptyCell (clashBoard ! i ! j)) allCells" by code_simp
  then have full: "\<forall>i<9. \<forall>j<9. \<not> isEmptyCell (clashBoard ! i ! j)"
    by (simp add: all_cells_iff)
  have "clashBoard ! 0 ! 0 = clashBoard ! 0 ! 1" by code_simp
  with s full solveSudokuInstant_full_board[OF s] show ?thesis by blast
qed

section \<open>A failed search and the board\<close>

text \<open>
  C3 (as amended). When \<open>solveSudokuInstant\<close> returns false on a 9\<times>9 board, every cell
  of the board holds what it held in the input, except that a cell that held \<open>0\<close> may
  now hold \<open>null\<close>: the search undoes a placement by writing \<open>null\<close>, not the value it
  found. On a board without a \<open>0\<close> the board after the call equals the input.
\<close>

theorem solveSudokuInstant_false_restores:
  assumes "shape9 board" and "solveSudokuInstant board = Inr (False, b')"
  shows "shape9 b'
       \<and> (\<forall>i<9. \<forall>j<9. b' ! i ! j = board ! i ! j \<or> (board ! i ! j = Num 0 \<and> b' ! i ! j = Null))
       \<and> ((\<forall>i<9. \<forall>j<9. board ! i ! j \<noteq> Num 0) \<longrightarrow> b' = board)"
proof -
  from solveSudokuInstant_outcome(1)[OF assms(1)] assms(2)
  have s': "shape9 b'" and nl: "nulled board b'"
    by (auto simp: outcome_def)
  have cells: "b' ! i ! j = board ! i ! j \<or> (board ! i ! j = Num 0 \<and> b' ! i ! j = Null)"
    if "i < 9" "j < 9" for i j
    using nl that unfolding nulled_def isEmptyCell_def by metis
  have "b' = board" if "\<forall>i<9. \<forall>j<9. board ! i ! j \<noteq> Num 0"
    by (rule board_eqI[OF s' assms(1)]) (use cells that in blast)
  with s' cells show ?thesis by blast
qed

theorem solveSudokuInstant_false_restores_witness:
  "shape9 deadEnd \<and> solveSudokuInstant deadEnd = Inr (False, deadEnd)"
proof -
  have s: "shape9 deadEnd" by code_simp
  have r: "solveSudokuInstant deadEnd = Inr (False, deadEnd)" by code_simp
  from solveSudokuInstant_false_restores[OF s r] have "shape9 deadEnd" by (rule conjunct1)
  from this r show ?thesis by (rule conjI)
qed

text \<open>
  The claim as written (the board after a false result equals the input cell for cell)
  fails on a board that writes an empty cell as \<open>0\<close>.
\<close>

theorem solveSudokuInstant_false_zero_counterexample:
  "shape9 deadEndZero
     \<and> solveSudokuInstant deadEndZero = Inr (False, deadEndZeroAfter)
     \<and> deadEndZero ! 0 ! 0 = Num 0 \<and> deadEndZeroAfter ! 0 ! 0 = Null"
  by code_simp

section \<open>A successful search and the rules\<close>

text \<open>
  \<open>recheck board row col\<close> is the test of the claim: read the value of the cell, clear
  the cell and ask \<open>isValid\<close> for that value. A cell that does not hold a number fails
  the test.
\<close>

definition recheck :: "board \<Rightarrow> nat \<Rightarrow> nat \<Rightarrow> error + bool" where
  "recheck board row col =
     (case rd board row col of
        Inl e \<Rightarrow> Inl e
      | Inr (Num d) \<Rightarrow>
         (case wr board row col Null of
            Inl e \<Rightarrow> Inl e
          | Inr cleared \<Rightarrow> isValid cleared row col d)
      | Inr _ \<Rightarrow> Inr False)"

lemma recheck_shape9:
  assumes s: "shape9 b" and i: "i < 9" and j: "j < 9"
  shows "recheck b i j =
     Inr (\<exists>d. b ! i ! j = Num d \<and> (\<forall>p q. inUnit i j p q \<and> (p, q) \<noteq> (i, j) \<longrightarrow> b ! p ! q \<noteq> Num d))"
proof (cases "b ! i ! j")
  case (Num d)
  have "(\<exists>p q. inUnit i j p q \<and> put b i j Null ! p ! q = Num d)
      \<longleftrightarrow> (\<exists>p q. inUnit i j p q \<and> (p, q) \<noteq> (i, j) \<and> b ! p ! q = Num d)"
  proof -
    have "put b i j Null ! p ! q = Num d \<longleftrightarrow> (p, q) \<noteq> (i, j) \<and> b ! p ! q = Num d"
      if "inUnit i j p q" for p q
    proof -
      from that have "p < 9" "q < 9" by (simp_all add: inUnit_def)
      from nth_put[OF s i j this] show ?thesis by auto
    qed
    then show ?thesis by blast
  qed
  then have "isValid (put b i j Null) i j d
      = Inr (\<forall>p q. inUnit i j p q \<and> (p, q) \<noteq> (i, j) \<longrightarrow> b ! p ! q \<noteq> Num d)"
    using isValid_shape9[OF shape9_put[OF s] i j, of i j Null d] by auto
  with Num show ?thesis
    by (simp add: recheck_def rd_shape9[OF s i j] wr_shape9[OF s i j])
qed (simp_all add: recheck_def rd_shape9[OF s i j])




section \<open>The contract of isValid\<close>

text \<open>
  C6. On a 9\<times>9 board, for a row and a column below 9 and any digit, \<open>isValid\<close> returns
  false exactly when the digit is in one of the nine cells of the row, in one of the nine
  cells of the column, or in one of the nine cells of the box whose origin is
  \<open>(row - row mod 3, col - col mod 3)\<close>; otherwise it returns true. It only reads the
  board: its result is computed from the board it is given and it returns no board.
\<close>

theorem isValid_contract:
  assumes "shape9 board" and "row < 9" and "col < 9"
  shows "isValid board row col digit =
     Inr (\<not> ((\<exists>x<9. board ! row ! x = Num digit)
           \<or> (\<exists>x<9. board ! x ! col = Num digit)
           \<or> (\<exists>i<3. \<exists>j<3. board ! (i + (row - row mod 3)) ! (j + (col - col mod 3)) = Num digit)))"
proof -
  have "(\<exists>i j. inUnit row col i j \<and> board ! i ! j = Num digit) \<longleftrightarrow>
      ((\<exists>x<9. board ! row ! x = Num digit)
        \<or> (\<exists>x<9. board ! x ! col = Num digit)
        \<or> (\<exists>p q. (\<exists>i<3. p = i + (row - row mod 3)) \<and> (\<exists>j<3. q = j + (col - col mod 3))
               \<and> board ! p ! q = Num digit))"
    unfolding inUnit_def box_index[OF assms(2)] box_index[OF assms(3)]
    using assms(2,3) by blast
  also have "\<dots> \<longleftrightarrow>
      ((\<exists>x<9. board ! row ! x = Num digit)
        \<or> (\<exists>x<9. board ! x ! col = Num digit)
        \<or> (\<exists>i<3. \<exists>j<3. board ! (i + (row - row mod 3)) ! (j + (col - col mod 3)) = Num digit))"
    by blast
  finally show ?thesis
    by (simp only: isValid_shape9[OF assms])
qed

theorem isValid_contract_witness:
  "shape9 lastCellOpen \<and> isValid lastCellOpen 8 8 9 = Inr True \<and> isValid lastCellOpen 8 8 7 = Inr False"
proof -
  have s: "shape9 lastCellOpen" by code_simp
  have a: "\<not> ((\<exists>x<9. lastCellOpen ! 8 ! x = Num 9)
           \<or> (\<exists>x<9. lastCellOpen ! x ! 8 = Num 9)
           \<or> (\<exists>i<3. \<exists>j<3. lastCellOpen ! (i + (8 - 8 mod 3)) ! (j + (8 - 8 mod 3)) = Num 9))"
    by code_simp
  have b: "(\<exists>x<9. lastCellOpen ! 8 ! x = Num 7)
           \<or> (\<exists>x<9. lastCellOpen ! x ! 8 = Num 7)
           \<or> (\<exists>i<3. \<exists>j<3. lastCellOpen ! (i + (8 - 8 mod 3)) ! (j + (8 - 8 mod 3)) = Num 7)"
    by code_simp
  have "isValid lastCellOpen 8 8 9 = Inr True"
    using a by (simp only: isValid_contract[OF s, of 8 8 9] simp_thms)
  moreover have "isValid lastCellOpen 8 8 7 = Inr False"
    using b by (simp only: isValid_contract[OF s, of 8 8 7] simp_thms)
  ultimately show ?thesis using s by blast
qed

section \<open>Two equal clues in one row\<close>

lemma placedOk_row_has_digit:
  assumes s: "shape9 b" and i: "i < 9" and all: "\<forall>j<9. placedOk b i j"
    and d: "1 \<le> d" "d \<le> 9"
  shows "\<exists>j<9. b ! i ! j = Num d"
proof -
  define f where "f j = (case b ! i ! j of Num e \<Rightarrow> e | _ \<Rightarrow> 0)" for j
  have val: "b ! i ! j = Num (f j) \<and> 1 \<le> f j \<and> f j \<le> 9" if "j < 9" for j
  proof -
    from all that have "placedOk b i j" by blast
    then show ?thesis unfolding placedOk_def f_def by auto
  qed
  have inj: "inj_on f {..<9}"
  proof (rule inj_onI)
    fix x y assume x: "x \<in> {..<9}" and y: "y \<in> {..<9}" and eq: "f x = f y"
    show "x = y"
    proof (rule ccontr)
      assume ne: "x \<noteq> y"
      from all x have "placedOk b i x" by blast
      then obtain e where e: "b ! i ! x = Num e"
        and other: "\<forall>p q. inUnit i x p q \<and> (p, q) \<noteq> (i, x) \<longrightarrow> b ! p ! q \<noteq> Num e"
        unfolding placedOk_def by blast
      from y i have "inUnit i x i y" by (simp add: inUnit_def)
      with other ne have "b ! i ! y \<noteq> Num e" by blast
      moreover from val[of x] val[of y] x y eq e have "b ! i ! y = Num e" by simp
      ultimately show False by contradiction
    qed
  qed
  have sub: "f ` {..<9} \<subseteq> {1..9}" using val by auto
  have "card (f ` {..<9}) = 9" using card_image[OF inj] by simp
  then have "card (f ` {..<9}) = card {1..9::int}" by simp
  with sub have "f ` {..<9} = {1..9}" by (intro card_subset_eq) auto
  with d have "d \<in> f ` {..<9}" by simp
  then obtain j where "j < 9" "f j = d" by auto
  with val[of j] show ?thesis by auto
qed

text \<open>
  C8. On a 9\<times>9 board that is empty except for two cells of one row that both hold 5,
  \<open>solveSudokuInstant\<close> returns false: it returns a result, not an error. (Each of the
  eight other rows would need a 5 in a column of its own that is not one of the two
  columns of the clues; there are only seven such columns.)
\<close>

theorem solveSudokuInstant_two_fives:
  assumes s: "shape9 board" and r: "r < 9" and c1: "c1 < 9" and c2: "c2 < 9" and ne: "c1 \<noteq> c2"
    and five1: "board ! r ! c1 = Num 5" and five2: "board ! r ! c2 = Num 5"
    and rest: "\<forall>i<9. \<forall>j<9. (i, j) \<noteq> (r, c1) \<and> (i, j) \<noteq> (r, c2) \<longrightarrow> isEmptyCell (board ! i ! j)"
  shows "\<exists>b'. solveSudokuInstant board = Inr (False, b')"
proof -
  from solveSudokuInstant_outcome(1)[OF s] obtain ok b' where
    res: "solveSudokuInstant board = Inr (ok, b')" and out: "outcome board ok b'"
    by blast
  have "\<not> ok"
  proof
    assume ok
    with out have s': "shape9 b'" and sf: "solvedFrom board b'" by (simp_all add: outcome_def)
    have k1: "b' ! r ! c1 = Num 5" using sf r c1 five1 by (simp add: solvedFrom_def)
    have k2: "b' ! r ! c2 = Num 5" using sf r c2 five2 by (simp add: solvedFrom_def)
    have placed: "placedOk b' i j" if "i < 9" "i \<noteq> r" "j < 9" for i j
      using sf rest that by (simp add: solvedFrom_def)
    define A where "A = {..<9::nat} - {r}"
    have "\<forall>i\<in>A. \<exists>j. j < 9 \<and> b' ! i ! j = Num 5"
    proof
      fix i assume "i \<in> A"
      then have i: "i < 9" "i \<noteq> r" by (simp_all add: A_def)
      from placedOk_row_has_digit[OF s' i(1), of 5] placed[OF i]
      show "\<exists>j. j < 9 \<and> b' ! i ! j = Num 5" by auto
    qed
    then obtain colOf where colOf: "\<forall>i\<in>A. colOf i < 9 \<and> b' ! i ! colOf i = Num 5"
      by (auto dest: bchoice)
    have unique: "b' ! p ! q \<noteq> Num 5"
      if "i \<in> A" "inUnit i (colOf i) p q" "(p, q) \<noteq> (i, colOf i)" for i p q
    proof -
      from that(1) have i: "i < 9" "i \<noteq> r" by (simp_all add: A_def)
      from colOf that(1) have c: "colOf i < 9" "b' ! i ! colOf i = Num 5" by simp_all
      from placed[OF i c(1)] c(2) that(2,3) show ?thesis
        unfolding placedOk_def by auto
    qed
    have avoid: "colOf i \<noteq> c" if "i \<in> A" "b' ! r ! c = Num 5" for i c
    proof
      assume eq: "colOf i = c"
      from that(1) have i: "i < 9" "i \<noteq> r" by (simp_all add: A_def)
      from colOf that(1) have "colOf i < 9" by simp
      with r have "inUnit i (colOf i) r (colOf i)" by (simp add: inUnit_def)
      from unique[OF that(1) this] i(2) have "b' ! r ! colOf i \<noteq> Num 5" by simp
      with eq that(2) show False by simp
    qed
    have inj: "inj_on colOf A"
    proof (rule inj_onI)
      fix x y assume x: "x \<in> A" and y: "y \<in> A" and eq: "colOf x = colOf y"
      show "x = y"
      proof (rule ccontr)
        assume xy: "x \<noteq> y"
        from y have y9: "y < 9" by (simp add: A_def)
        from colOf x have "colOf x < 9" by simp
        with y9 have "inUnit x (colOf x) y (colOf x)" by (simp add: inUnit_def)
        from unique[OF x this] xy have "b' ! y ! colOf x \<noteq> Num 5" by simp
        moreover from colOf y eq have "b' ! y ! colOf x = Num 5" by simp
        ultimately show False by contradiction
      qed
    qed
    have sub: "colOf ` A \<subseteq> {..<9} - {c1, c2}"
      using colOf avoid[OF _ k1] avoid[OF _ k2] by auto
    have "card A = 8" using r by (simp add: A_def)
    moreover have "card ({..<9::nat} - {c1, c2}) = 7" using c1 c2 ne by simp
    moreover have "card (colOf ` A) = card A" by (rule card_image[OF inj])
    moreover have "card (colOf ` A) \<le> card ({..<9::nat} - {c1, c2})"
      by (rule card_mono[OF _ sub]) simp
    ultimately show False by simp
  qed
  with res show ?thesis by auto
qed

definition twoFives :: board where
  "twoFives =
    [[Num 5, Num 5, Null, Null, Null, Null, Null, Null, Null],
     [Null, Null, Null, Null, Null, Null, Null, Null, Null],
     [Null, Null, Null, Null, Null, Null, Null, Null, Null],
     [Null, Null, Null, Null, Null, Null, Null, Null, Null],
     [Null, Null, Null, Null, Null, Null, Null, Null, Null],
     [Null, Null, Null, Null, Null, Null, Null, Null, Null],
     [Null, Null, Null, Null, Null, Null, Null, Null, Null],
     [Null, Null, Null, Null, Null, Null, Null, Null, Null],
     [Null, Null, Null, Null, Null, Null, Null, Null, Null]]"

theorem solveSudokuInstant_two_fives_witness:
  "shape9 twoFives \<and> twoFives ! 0 ! 0 = Num 5 \<and> twoFives ! 0 ! 1 = Num 5
     \<and> (\<exists>b'. solveSudokuInstant twoFives = Inr (False, b'))"
proof -
  have s: "shape9 twoFives" by code_simp
  have f1: "twoFives ! 0 ! 0 = Num 5" by code_simp
  have f2: "twoFives ! 0 ! 1 = Num 5" by code_simp
  have "list_all (\<lambda>(i, j). (i, j) \<noteq> (0, 0) \<and> (i, j) \<noteq> (0, 1) \<longrightarrow> isEmptyCell (twoFives ! i ! j)) allCells"
    by code_simp
  then have e: "\<forall>i<9. \<forall>j<9. (i, j) \<noteq> (0, 0) \<and> (i, j) \<noteq> (0, 1) \<longrightarrow> isEmptyCell (twoFives ! i ! j)"
    by (simp only: all_cells_iff)
  have "\<exists>b'. solveSudokuInstant twoFives = Inr (False, b')"
    by (rule solveSudokuInstant_two_fives[OF s _ _ _ _ f1 f2 e]) simp_all
  with s f1 f2 show ?thesis by blast
qed

section \<open>The traced search and the instant search\<close>

definition forget :: "error + (bool \<times> board \<times> step list) \<Rightarrow> error + (bool \<times> board)" where
  "forget res = (case res of Inl e \<Rightarrow> Inl e | Inr (ok, b, steps) \<Rightarrow> Inr (ok, b))"

lemma forget_simps [simp]:
  "forget (Inl e) = Inl e" "forget (Inr (ok, b, steps)) = Inr (ok, b)"
  by (simp_all add: forget_def)

lemma forget_Inl: "forget res = Inl e \<longleftrightarrow> res = Inl e"
  by (cases res) (auto simp: forget_def)

lemma forget_Inr: "forget res = Inr (ok, b) \<longleftrightarrow> (\<exists>steps. res = Inr (ok, b, steps))"
  by (cases res) (auto simp: forget_def)

lemma solveSudoku_forget:
  "forget (solveSudoku b t) = solveSudokuInstant b"
  "forget (solveFrom b t r c n) = solveInstantFrom b r c n"
proof (induction b t and b t r c n rule: solveSudoku_solveFrom.induct)
  case (1 board onStep)
  show ?case
  proof (cases "findEmpty board")
    case (Inl e)
    then show ?thesis
      by (subst solveSudoku.simps, subst solveSudokuInstant.simps) simp
  next
    case (Inr fe)
    show ?thesis
    proof (cases fe)
      case None
      with Inr show ?thesis
        by (subst solveSudoku.simps, subst solveSudokuInstant.simps) simp
    next
      case (Some pos)
      obtain row col where "pos = (row, col)" by (cases pos)
      with Some Inr have fe': "findEmpty board = Inr (Some (row, col))" by simp
      from "1.IH"[OF fe' refl refl] fe' show ?thesis
        by (subst solveSudoku.simps, subst solveSudokuInstant.simps) simp
    qed
  qed
next
  case (2 board onStep row col num)
  show ?case
  proof (cases "9 < num")
    case True
    then show ?thesis
      by (subst solveFrom.simps, subst solveInstantFrom.simps) simp
  next
    case le: False
    show ?thesis
    proof (cases "isValid board row col (int num)")
      case (Inl e)
      with le show ?thesis
        by (subst solveFrom.simps, subst solveInstantFrom.simps) simp
    next
      case (Inr v)
      show ?thesis
      proof (cases v)
        case False
        with "2.IH"(3)[OF le Inr] le Inr show ?thesis
          by (subst solveFrom.simps, subst solveInstantFrom.simps) simp
      next
        case True
        then have vT: "v = True" by simp
        show ?thesis
        proof (cases "wr board row col (Num (int num))")
          case (Inl e)
          with le Inr vT show ?thesis
            by (subst solveFrom.simps, subst solveInstantFrom.simps) simp
        next
          case w1: (Inr b1)
          note ih1 = "2.IH"(1)[OF le Inr vT w1]
          show ?thesis
          proof (cases "solveSudoku b1 onStep")
            case (Inl e)
            with ih1 have "solveSudokuInstant b1 = Inl e" by simp
            with Inl le Inr vT w1 show ?thesis
              by (subst solveFrom.simps, subst solveInstantFrom.simps) simp
          next
            case sol: (Inr res)
            obtain ok1 b2 steps where res: "res = (ok1, b2, steps)" by (cases res)
            with sol ih1 have inst: "solveSudokuInstant b1 = Inr (ok1, b2)" by simp
            show ?thesis
            proof (cases ok1)
              case True
              with res sol inst le Inr vT w1 show ?thesis
                by (subst solveFrom.simps, subst solveInstantFrom.simps) simp
            next
              case False
              with res sol have sol': "solveSudoku b1 onStep = Inr (False, b2, steps)" by simp
              from False inst have inst': "solveSudokuInstant b1 = Inr (False, b2)" by simp
              show ?thesis
              proof (cases "wr b2 row col Null")
                case (Inl e)
                with sol' inst' le Inr vT w1 show ?thesis
                  by (subst solveFrom.simps, subst solveInstantFrom.simps) simp
              next
                case w2: (Inr b3)
                note ih2 = "2.IH"(2)[OF le Inr vT w1 sol' refl refl refl w2]
                show ?thesis
                proof (cases "solveFrom b3 onStep row col (num + 1)")
                  case (Inl e)
                  with ih2 have "solveInstantFrom b3 row col (num + 1) = Inl e" by simp
                  with Inl sol' inst' le Inr vT w1 w2 show ?thesis
                    by (subst solveFrom.simps, subst solveInstantFrom.simps) simp
                next
                  case rest: (Inr res')
                  obtain ok b4 more' where res': "res' = (ok, b4, more')" by (cases res')
                  with rest ih2 have "solveInstantFrom b3 row col (num + 1) = Inr (ok, b4)" by simp
                  with rest res' sol' inst' le Inr vT w1 w2 show ?thesis
                    by (subst solveFrom.simps, subst solveInstantFrom.simps) simp
                qed
              qed
            qed
          qed
        qed
      qed
    qed
  qed
qed

lemma replay_Nil [simp]: "replay b [] = b"
  by (simp add: replay_def)

lemma replay_append: "replay b (xs @ ys) = replay (replay b xs) ys"
  by (simp add: replay_def)

lemma replay_emit [simp]: "replay b (emit True b1 r c) = b1"
  by (simp add: replay_def emit_def)

lemma emit_False [simp]: "emit False b r c = []"
  by (simp add: emit_def)

lemma solveSudoku_replay:
  "solveSudoku b t = Inr (ok, b', tr) \<Longrightarrow> (if t then replay b tr = b' else tr = [])"
  "solveFrom b t r c n = Inr (ok, b', tr) \<Longrightarrow> (if t then replay b tr = b' else tr = [])"
proof (induction b t and b t r c n arbitrary: ok b' tr and ok b' tr
    rule: solveSudoku_solveFrom.induct)
  case (1 board onStep)
  from "1.prems" obtain fe where fe: "findEmpty board = Inr fe"
    by (subst (asm) solveSudoku.simps) (auto split: sum.splits)
  show ?case
  proof (cases fe)
    case None
    with fe "1.prems" show ?thesis
      by (subst (asm) solveSudoku.simps) auto
  next
    case (Some pos)
    obtain row col where "pos = (row, col)" by (cases pos)
    with Some fe have fe': "findEmpty board = Inr (Some (row, col))" by simp
    from "1.prems" fe' have "solveFrom board onStep row col 1 = Inr (ok, b', tr)"
      by (subst (asm) solveSudoku.simps) simp
    from "1.IH"[OF fe' refl refl this] show ?thesis .
  qed
next
  case (2 board onStep row col num)
  note res = "2.prems"
  show ?case
  proof (cases "9 < num")
    case True
    with res show ?thesis
      by (subst (asm) solveFrom.simps) auto
  next
    case le: False
    with res obtain v where iv: "isValid board row col (int num) = Inr v"
      by (subst (asm) solveFrom.simps) (auto split: sum.splits)
    show ?thesis
    proof (cases v)
      case False
      with res le iv have "solveFrom board onStep row col (num + 1) = Inr (ok, b', tr)"
        by (subst (asm) solveFrom.simps) simp
      from "2.IH"(3)[OF le iv _ this] False show ?thesis by simp
    next
      case True
      then have vT: "v = True" by simp
      from res le iv vT obtain b1 where w1: "wr board row col (Num (int num)) = Inr b1"
        by (subst (asm) solveFrom.simps) (auto split: sum.splits)
      from res le iv vT w1 obtain ok1 b2 steps where
        sol: "solveSudoku b1 onStep = Inr (ok1, b2, steps)"
        by (subst (asm) solveFrom.simps) (auto split: sum.splits)
      note ih1 = "2.IH"(1)[OF le iv vT w1 sol]
      show ?thesis
      proof (cases ok1)
        case True
        with res le iv vT w1 sol have "ok = True" "b' = b2" "tr = emit onStep b1 row col @ steps"
          by (subst (asm) solveFrom.simps, simp)+
        with ih1 show ?thesis by (cases onStep) (simp_all add: replay_append)
      next
        case False
        with sol have sol': "solveSudoku b1 onStep = Inr (False, b2, steps)" by simp
        from res le iv vT w1 sol' obtain b3 where w2: "wr b2 row col Null = Inr b3"
          by (subst (asm) solveFrom.simps) (auto split: sum.splits)
        from res le iv vT w1 sol' w2 obtain rest where
          lp: "solveFrom b3 onStep row col (num + 1) = Inr (ok, b', rest)" and
          tr: "tr = emit onStep b1 row col @ steps @ emit onStep b3 row col @ rest"
          by (subst (asm) solveFrom.simps) (auto split: sum.splits)
        note ih2 = "2.IH"(2)[OF le iv vT w1 sol' refl refl refl w2 lp]
        from ih1 ih2 tr show ?thesis by (cases onStep) (simp_all add: replay_append)
      qed
    qed
  qed
qed

lemma solveFrom_trace_empty:
  "solveFrom b True r c n = Inr (ok, b', tr) \<Longrightarrow>
     tr = [] \<longleftrightarrow> (\<forall>d. n \<le> d \<and> d \<le> 9 \<longrightarrow> isValid b r c (int d) = Inr False)"
proof (induction "10 - n" arbitrary: n)
  case 0
  then have "9 < n" by simp
  with "0.prems" show ?case
    by (subst (asm) solveFrom.simps) auto
next
  case (Suc k)
  then have le: "\<not> 9 < n" by simp
  from Suc.prems le obtain v where iv: "isValid b r c (int n) = Inr v"
    by (subst (asm) solveFrom.simps) (auto split: sum.splits)
  show ?case
  proof (cases v)
    case False
    with Suc.prems le iv have "solveFrom b True r c (n + 1) = Inr (ok, b', tr)"
      by (subst (asm) solveFrom.simps) simp
    moreover from Suc.hyps(2) have "k = 10 - (n + 1)" by simp
    ultimately have "tr = [] \<longleftrightarrow> (\<forall>d. n + 1 \<le> d \<and> d \<le> 9 \<longrightarrow> isValid b r c (int d) = Inr False)"
      by (rule Suc.hyps(1)[rotated])
    moreover have "(\<forall>d. n \<le> d \<and> d \<le> 9 \<longrightarrow> isValid b r c (int d) = Inr False)
        \<longleftrightarrow> (\<forall>d. n + 1 \<le> d \<and> d \<le> 9 \<longrightarrow> isValid b r c (int d) = Inr False)"
    proof
      assume "\<forall>d. n \<le> d \<and> d \<le> 9 \<longrightarrow> isValid b r c (int d) = Inr False"
      then show "\<forall>d. n + 1 \<le> d \<and> d \<le> 9 \<longrightarrow> isValid b r c (int d) = Inr False" by simp
    next
      assume a: "\<forall>d. n + 1 \<le> d \<and> d \<le> 9 \<longrightarrow> isValid b r c (int d) = Inr False"
      show "\<forall>d. n \<le> d \<and> d \<le> 9 \<longrightarrow> isValid b r c (int d) = Inr False"
      proof (intro allI impI)
        fix d assume d: "n \<le> d \<and> d \<le> 9"
        show "isValid b r c (int d) = Inr False"
        proof (cases "d = n")
          case True
          with iv False show ?thesis by simp
        next
          case False
          with d a show ?thesis by simp
        qed
      qed
    qed
    ultimately show ?thesis by simp
  next
    case True
    with Suc.prems le iv have "tr \<noteq> []"
      by (subst (asm) solveFrom.simps) (auto split: sum.splits bool.splits simp: emit_def)
    moreover from True iv le have "\<not> (\<forall>d. n \<le> d \<and> d \<le> 9 \<longrightarrow> isValid b r c (int d) = Inr False)"
      by (auto intro!: exI[of _ n])
    ultimately show ?thesis by simp
  qed
qed


lemma solveFrom_all_invalid:
  "solveFrom b t r c n = Inr (ok, b', tr) \<Longrightarrow>
     \<forall>d. n \<le> d \<and> d \<le> 9 \<longrightarrow> isValid b r c (int d) = Inr False \<Longrightarrow> \<not> ok \<and> b' = b"
proof (induction "10 - n" arbitrary: n)
  case 0
  then have "9 < n" by simp
  with "0.prems" show ?case
    by (subst (asm) solveFrom.simps) auto
next
  case (Suc k)
  then have le: "\<not> 9 < n" by simp
  with Suc.prems(2) have iv: "isValid b r c (int n) = Inr False" by simp
  with Suc.prems(1) le have "solveFrom b t r c (n + 1) = Inr (ok, b', tr)"
    by (subst (asm) solveFrom.simps) simp
  moreover from Suc.hyps(2) have "k = 10 - (n + 1)" by simp
  moreover from Suc.prems(2)
  have "\<forall>d. n + 1 \<le> d \<and> d \<le> 9 \<longrightarrow> isValid b r c (int d) = Inr False" by simp
  ultimately show ?case using Suc.hyps(1) by blast
qed

text \<open>
  C4. On a 9\<times>9 board \<open>solveSudoku\<close>, called with a callback, returns the boolean that
  \<open>solveSudokuInstant\<close> returns on the same board, and replaying the snapshots it passed
  to the callback, in order, starting from the original board, ends on the board that
  \<open>solveSudokuInstant\<close> leaves.
\<close>

theorem solveSudoku_replay_is_instant:
  assumes "shape9 board"
  shows "\<exists>ok b' steps. solveSudoku board True = Inr (ok, b', steps)
            \<and> solveSudokuInstant board = Inr (ok, replay board steps)"
proof -
  from solveSudokuInstant_outcome(1)[OF assms] obtain ok b' where
    inst: "solveSudokuInstant board = Inr (ok, b')" by blast
  with solveSudoku_forget(1)[of board True] obtain steps where
    tr: "solveSudoku board True = Inr (ok, b', steps)"
    by (auto simp: forget_Inr)
  from solveSudoku_replay(1)[OF tr] have "replay board steps = b'" by simp
  with inst tr show ?thesis by blast
qed

theorem solveSudoku_replay_is_instant_witness:
  "shape9 deadEnd \<and> (\<exists>ok b' steps. solveSudoku deadEnd True = Inr (ok, b', steps)
            \<and> solveSudokuInstant deadEnd = Inr (ok, replay deadEnd steps))"
proof -
  have s: "shape9 deadEnd" by code_simp
  from s solveSudoku_replay_is_instant[OF s] show ?thesis by (rule conjI)
qed

text \<open>
  C5 (as amended). The sequence of steps that \<open>solveSudoku\<close> reports on a 9\<times>9 board is
  empty exactly when the search places no digit at all: with the result true when the
  board has no empty cell, and with the result false when no digit from 1 to 9 is valid
  at the first empty cell. Whether a solution was found is told by the boolean, which is
  the one \<open>solveSudokuInstant\<close> returns.
\<close>

theorem solveSudoku_trace_empty_iff:
  assumes "shape9 board"
  shows "\<exists>ok b' steps. solveSudoku board True = Inr (ok, b', steps)
            \<and> solveSudokuInstant board = Inr (ok, b')
            \<and> (steps = [] \<and> ok \<longleftrightarrow> findEmpty board = Inr None)
            \<and> (steps = [] \<and> \<not> ok \<longleftrightarrow>
                 (\<exists>row col. findEmpty board = Inr (Some (row, col))
                    \<and> (\<forall>d. 1 \<le> d \<and> d \<le> 9 \<longrightarrow> isValid board row col (int d) = Inr False)))"
proof -
  from solveSudokuInstant_outcome(1)[OF assms] obtain ok b' where
    inst: "solveSudokuInstant board = Inr (ok, b')" by blast
  with solveSudoku_forget(1)[of board True] obtain steps where
    tr: "solveSudoku board True = Inr (ok, b', steps)"
    by (auto simp: forget_Inr)
  from findEmpty_total[OF assms] obtain fe where fe: "findEmpty board = Inr fe" by blast
  have "(steps = [] \<and> ok \<longleftrightarrow> findEmpty board = Inr None)
      \<and> (steps = [] \<and> \<not> ok \<longleftrightarrow>
           (\<exists>row col. findEmpty board = Inr (Some (row, col))
              \<and> (\<forall>d. 1 \<le> d \<and> d \<le> 9 \<longrightarrow> isValid board row col (int d) = Inr False)))"
  proof (cases fe)
    case None
    with fe have "solveSudoku board True = Inr (True, board, [])"
      by (subst solveSudoku.simps) simp
    with tr None fe show ?thesis by simp
  next
    case (Some pos)
    obtain row col where "pos = (row, col)" by (cases pos)
    with Some fe have fe': "findEmpty board = Inr (Some (row, col))" by simp
    have "solveSudoku board True = solveFrom board True row col 1"
      by (subst solveSudoku.simps) (simp add: fe')
    with tr have lp: "solveFrom board True row col 1 = Inr (ok, b', steps)" by simp
    note e = solveFrom_trace_empty[OF lp]
    from solveFrom_all_invalid[OF lp] e have "steps = [] \<longrightarrow> \<not> ok" by blast
    with e fe' show ?thesis by auto
  qed
  with inst tr show ?thesis by blast
qed

theorem solveSudoku_trace_empty_iff_witness:
  "shape9 lastCellOpen
     \<and> (\<exists>ok b' steps. solveSudoku lastCellOpen True = Inr (ok, b', steps)
            \<and> solveSudokuInstant lastCellOpen = Inr (ok, b')
            \<and> (steps = [] \<and> ok \<longleftrightarrow> findEmpty lastCellOpen = Inr None)
            \<and> (steps = [] \<and> \<not> ok \<longleftrightarrow>
                 (\<exists>row col. findEmpty lastCellOpen = Inr (Some (row, col))
                    \<and> (\<forall>d. 1 \<le> d \<and> d \<le> 9 \<longrightarrow> isValid lastCellOpen row col (int d) = Inr False))))"
proof -
  have s: "shape9 lastCellOpen" by code_simp
  from s solveSudoku_trace_empty_iff[OF s] show ?thesis by (rule conjI)
qed

text \<open>
  The claim as written fails in both directions. The completed example grid passes the
  re-check at every cell, so it has a completion (itself), and its trace is empty. On
  \<open>deadEnd\<close> the search fails, and the trace has four steps.
\<close>

theorem solveSudoku_trace_empty_counterexample:
  "solveSudoku solvedExample True = Inr (True, solvedExample, [])
     \<and> list_all (\<lambda>(i, j). recheck solvedExample i j = Inr True) allCells
     \<and> forget (solveSudoku deadEnd True) = Inr (False, deadEnd)
     \<and> map_sum id (\<lambda>(ok, b, steps). length steps) (solveSudoku deadEnd True) = Inr 4"
  by code_simp

section \<open>Boards that break the contract\<close>

text \<open>
  \<open>outOfRange\<close> is the completed example grid with 10 in its first cell;
  \<open>outOfRangeOpen\<close> has, besides, its last cell cleared. \<open>shortRows\<close> is the completed
  grid without its last column: nine rows of eight cells.
\<close>

definition outOfRange :: board where
  "outOfRange =
    [[Num 10, Num 3, Num 4, Num 6, Num 7, Num 8, Num 9, Num 1, Num 2],
     [Num 6, Num 7, Num 2, Num 1, Num 9, Num 5, Num 3, Num 4, Num 8],
     [Num 1, Num 9, Num 8, Num 3, Num 4, Num 2, Num 5, Num 6, Num 7],
     [Num 8, Num 5, Num 9, Num 7, Num 6, Num 1, Num 4, Num 2, Num 3],
     [Num 4, Num 2, Num 6, Num 8, Num 5, Num 3, Num 7, Num 9, Num 1],
     [Num 7, Num 1, Num 3, Num 9, Num 2, Num 4, Num 8, Num 5, Num 6],
     [Num 9, Num 6, Num 1, Num 5, Num 3, Num 7, Num 2, Num 8, Num 4],
     [Num 2, Num 8, Num 7, Num 4, Num 1, Num 9, Num 6, Num 3, Num 5],
     [Num 3, Num 4, Num 5, Num 2, Num 8, Num 6, Num 1, Num 7, Num 9]]"

definition outOfRangeOpen :: board where
  "outOfRangeOpen =
    [[Num 10, Num 3, Num 4, Num 6, Num 7, Num 8, Num 9, Num 1, Num 2],
     [Num 6, Num 7, Num 2, Num 1, Num 9, Num 5, Num 3, Num 4, Num 8],
     [Num 1, Num 9, Num 8, Num 3, Num 4, Num 2, Num 5, Num 6, Num 7],
     [Num 8, Num 5, Num 9, Num 7, Num 6, Num 1, Num 4, Num 2, Num 3],
     [Num 4, Num 2, Num 6, Num 8, Num 5, Num 3, Num 7, Num 9, Num 1],
     [Num 7, Num 1, Num 3, Num 9, Num 2, Num 4, Num 8, Num 5, Num 6],
     [Num 9, Num 6, Num 1, Num 5, Num 3, Num 7, Num 2, Num 8, Num 4],
     [Num 2, Num 8, Num 7, Num 4, Num 1, Num 9, Num 6, Num 3, Num 5],
     [Num 3, Num 4, Num 5, Num 2, Num 8, Num 6, Num 1, Num 7, Null]]"

definition shortRows :: board where
  "shortRows =
    [[Num 5, Num 3, Num 4, Num 6, Num 7, Num 8, Num 9, Num 1],
     [Num 6, Num 7, Num 2, Num 1, Num 9, Num 5, Num 3, Num 4],
     [Num 1, Num 9, Num 8, Num 3, Num 4, Num 2, Num 5, Num 6],
     [Num 8, Num 5, Num 9, Num 7, Num 6, Num 1, Num 4, Num 2],
     [Num 4, Num 2, Num 6, Num 8, Num 5, Num 3, Num 7, Num 9],
     [Num 7, Num 1, Num 3, Num 9, Num 2, Num 4, Num 8, Num 5],
     [Num 9, Num 6, Num 1, Num 5, Num 3, Num 7, Num 2, Num 8],
     [Num 2, Num 8, Num 7, Num 4, Num 1, Num 9, Num 6, Num 3],
     [Num 3, Num 4, Num 5, Num 2, Num 8, Num 6, Num 1, Num 7]]"

text \<open>
  C9 (as amended). The solver entry points do not validate their input. On a board of
  nine rows of nine cells, whatever the cells hold, \<open>solveSudokuInstant\<close> and
  \<open>solveSudoku\<close> return a boolean, never an error, and every cell that was not empty in
  the input, a value outside 1..9 included, holds the same value afterwards: such a value
  is taken as a filled cell, neither rejected nor changed.
\<close>

theorem solvers_accept_any_cell_values:
  assumes "shape9 board"
  shows "\<exists>ok b' steps. solveSudokuInstant board = Inr (ok, b')
            \<and> solveSudoku board onStep = Inr (ok, b', steps)
            \<and> (\<forall>i<9. \<forall>j<9. \<not> isEmptyCell (board ! i ! j) \<longrightarrow> b' ! i ! j = board ! i ! j)"
proof -
  from solveSudokuInstant_outcome(1)[OF assms] obtain ok b' where
    inst: "solveSudokuInstant board = Inr (ok, b')" and out: "outcome board ok b'" by blast
  with solveSudoku_forget(1)[of board onStep] obtain steps where
    tr: "solveSudoku board onStep = Inr (ok, b', steps)"
    by (auto simp: forget_Inr)
  have "b' ! i ! j = board ! i ! j" if "i < 9" "j < 9" "\<not> isEmptyCell (board ! i ! j)" for i j
  proof (cases ok)
    case True
    with out that show ?thesis by (simp add: outcome_def solvedFrom_def)
  next
    case False
    with out have "nulled board b'" by (simp add: outcome_def)
    from nulled_filled[OF this that] show ?thesis .
  qed
  with inst tr show ?thesis by blast
qed

theorem solvers_accept_any_cell_values_witness:
  "shape9 outOfRangeOpen \<and> outOfRangeOpen ! 0 ! 0 = Num 10
     \<and> (\<exists>ok b' steps. solveSudokuInstant outOfRangeOpen = Inr (ok, b')
            \<and> solveSudoku outOfRangeOpen True = Inr (ok, b', steps)
            \<and> (\<forall>i<9. \<forall>j<9. \<not> isEmptyCell (outOfRangeOpen ! i ! j) \<longrightarrow>
                  b' ! i ! j = outOfRangeOpen ! i ! j))"
proof -
  have s: "shape9 outOfRangeOpen" by code_simp
  have t: "outOfRangeOpen ! 0 ! 0 = Num 10" by code_simp
  from solvers_accept_any_cell_values[OF s, of True] t have
    "outOfRangeOpen ! 0 ! 0 = Num 10
     \<and> (\<exists>ok b' steps. solveSudokuInstant outOfRangeOpen = Inr (ok, b')
            \<and> solveSudoku outOfRangeOpen True = Inr (ok, b', steps)
            \<and> (\<forall>i<9. \<forall>j<9. \<not> isEmptyCell (outOfRangeOpen ! i ! j) \<longrightarrow>
                  b' ! i ! j = outOfRangeOpen ! i ! j))"
    by (rule conjI[rotated])
  with s show ?thesis by (rule conjI)
qed

text \<open>
  The claim as written asks for an explicit error on malformed input. A full board with a
  10 in it is accepted as solved by both entry points, and so is a board whose rows have
  only eight cells (the missing ninth cell reads as \<open>undefined\<close>, which is not empty).
\<close>

theorem solvers_malformed_counterexample:
  "outOfRange ! 0 ! 0 = Num 10
     \<and> solveSudokuInstant outOfRange = Inr (True, outOfRange)
     \<and> solveSudoku outOfRange True = Inr (True, outOfRange, [])
     \<and> length (shortRows ! 0) = 8
     \<and> solveSudokuInstant shortRows = Inr (True, shortRows)
     \<and> solveSudoku shortRows True = Inr (True, shortRows, [])"
  by code_simp

section \<open>The validator (sudokuValidation.ts)\<close>

datatype scope = Row | Column | Box | Invalid

record ValidationError =
  errRow :: nat
  errCol :: nat
  errType :: scope
  message :: string

text \<open>
  The messages interpolate the value of the cell. \<open>showCell\<close> is the decimal form
  JavaScript gives an integer whose magnitude is below \<open>10^21\<close>; from there on JavaScript
  prints a number in exponent form, which \<open>showCell\<close> does not reproduce. The digits of
  a board are far below that bound.
\<close>

fun showNat :: "nat \<Rightarrow> string" where
  "showNat n =
     (if n < 10 then [''0123456789'' ! n]
      else showNat (n div 10) @ [''0123456789'' ! (n mod 10)])"

definition showCell :: "cell \<Rightarrow> string" where
  "showCell v =
     (case v of
        Undefined \<Rightarrow> ''undefined''
      | Null \<Rightarrow> ''null''
      | Num n \<Rightarrow> if n < 0 then ''-'' @ showNat (nat (- n)) else showNat (nat n))"

text \<open>
  The box message has the multiplication sign U+00D7 between the two 3s; it is written
  here by the two bytes of its UTF-8 form.
\<close>

definition timesSign :: string where
  "timesSign = [char_of (195 :: nat), char_of (151 :: nat)]"

text \<open>
  \<open>dupScan board v self ps\<close> is one inner loop of \<open>validateBoard\<close>: it runs through the
  positions \<open>ps\<close>, skips the cell \<open>self\<close> without reading it, and stops (\<open>break\<close>) at
  the first other cell that holds \<open>v\<close>.
\<close>

fun dupScan :: "board \<Rightarrow> cell \<Rightarrow> nat \<times> nat \<Rightarrow> (nat \<times> nat) list \<Rightarrow> error + bool" where
  "dupScan board v self [] = Inr False"
| "dupScan board v self ((r, c) # ps) =
     (if (r, c) \<noteq> self
      then (case rd board r c of
              Inl e \<Rightarrow> Inl e
            | Inr x \<Rightarrow> if x = v then Inr True else dupScan board v self ps)
      else dupScan board v self ps)"

text \<open>
  The box loop: the \<open>break\<close> leaves the inner loop only, so each of the three rows of
  the box can add an entry.
\<close>

fun boxScan ::
  "board \<Rightarrow> cell \<Rightarrow> nat \<times> nat \<Rightarrow> nat \<Rightarrow> ValidationError \<Rightarrow> nat list \<Rightarrow> error + ValidationError list"
where
  "boxScan board v self boxCol entry [] = Inr []"
| "boxScan board v self boxCol entry (r # rs) =
     (case dupScan board v self (map (\<lambda>c. (r, c)) [boxCol..<boxCol + 3]) of
        Inl e \<Rightarrow> Inl e
      | Inr found \<Rightarrow>
         (case boxScan board v self boxCol entry rs of
            Inl e \<Rightarrow> Inl e
          | Inr es \<Rightarrow> Inr ((if found then [entry] else []) @ es)))"

definition cellErrors :: "board \<Rightarrow> nat \<Rightarrow> nat \<Rightarrow> error + ValidationError list" where
  "cellErrors board row col =
     (case rd board row col of
        Inl e \<Rightarrow> Inl e
      | Inr v \<Rightarrow>
         if v = Null \<or> v = Num 0 then Inr []
         else
          (case dupScan board v (row, col) (map (\<lambda>c. (row, c)) [0..<9]) of
             Inl e \<Rightarrow> Inl e
           | Inr inRow \<Rightarrow>
              (case dupScan board v (row, col) (map (\<lambda>r. (r, col)) [0..<9]) of
                 Inl e \<Rightarrow> Inl e
               | Inr inCol \<Rightarrow>
                  (let boxRow = (row div 3) * 3; boxCol = (col div 3) * 3 in
                   case boxScan board v (row, col) boxCol
                          \<lparr>errRow = row, errCol = col, errType = Box,
                            message = ''Duplicate '' @ showCell v @ '' in 3'' @ timesSign @ ''3 box''\<rparr>
                          [boxRow..<boxRow + 3] of
                     Inl e \<Rightarrow> Inl e
                   | Inr inBox \<Rightarrow>
                      Inr ((if inRow
                            then [\<lparr>errRow = row, errCol = col, errType = Row,
                                    message = ''Duplicate '' @ showCell v @ '' in row''\<rparr>]
                            else [])
                         @ (if inCol
                            then [\<lparr>errRow = row, errCol = col, errType = Column,
                                    message = ''Duplicate '' @ showCell v @ '' in column''\<rparr>]
                            else [])
                         @ inBox)))))"

fun validateCells :: "board \<Rightarrow> (nat \<times> nat) list \<Rightarrow> error + ValidationError list" where
  "validateCells board [] = Inr []"
| "validateCells board ((row, col) # ps) =
     (case cellErrors board row col of
        Inl e \<Rightarrow> Inl e
      | Inr es \<Rightarrow>
         (case validateCells board ps of
            Inl e \<Rightarrow> Inl e
          | Inr rest \<Rightarrow> Inr (es @ rest)))"

definition validateBoard :: "board \<Rightarrow> error + ValidationError list" where
  "validateBoard board = validateCells board allCells"

definition twoFivesApart :: board where
  "twoFivesApart =
    [[Num 5, Null, Null, Null, Num 5, Null, Null, Null, Null],
     [Null, Null, Null, Null, Null, Null, Null, Null, Null],
     [Null, Null, Null, Null, Null, Null, Null, Null, Null],
     [Null, Null, Null, Null, Null, Null, Null, Null, Null],
     [Null, Null, Null, Null, Null, Null, Null, Null, Null],
     [Null, Null, Null, Null, Null, Null, Null, Null, Null],
     [Null, Null, Null, Null, Null, Null, Null, Null, Null],
     [Null, Null, Null, Null, Null, Null, Null, Null, Null],
     [Null, Null, Null, Null, Null, Null, Null, Null, Null]]"

section \<open>What the validator reports on a 9\<times>9 board\<close>

lemma dupScan_shape9:
  "shape9 b \<Longrightarrow> \<forall>(i, j) \<in> set ps. i < 9 \<and> j < 9 \<Longrightarrow>
   dupScan b v self ps = Inr (\<exists>(i, j) \<in> set ps. (i, j) \<noteq> self \<and> b ! i ! j = v)"
  by (induction b v self ps rule: dupScan.induct) (auto simp: rd_shape9)

lemma boxScan_shape9:
  "shape9 b \<Longrightarrow> \<forall>r \<in> set rs. r < 9 \<Longrightarrow> boxCol + 3 \<le> 9 \<Longrightarrow>
   boxScan b v self boxCol entry rs =
     Inr (concat (map (\<lambda>r. if (\<exists>c. boxCol \<le> c \<and> c < boxCol + 3 \<and> (r, c) \<noteq> self \<and> b ! r ! c = v)
                           then [entry] else []) rs))"
proof (induction rs)
  case Nil
  then show ?case by simp
next
  case (Cons r rs)
  have "dupScan b v self (map (\<lambda>c. (r, c)) [boxCol..<boxCol + 3])
      = Inr (\<exists>(i, j) \<in> set (map (\<lambda>c. (r, c)) [boxCol..<boxCol + 3]). (i, j) \<noteq> self \<and> b ! i ! j = v)"
    by (rule dupScan_shape9[OF Cons.prems(1)]) (use Cons.prems(2,3) in auto)
  also have "(\<exists>(i, j) \<in> set (map (\<lambda>c. (r, c)) [boxCol..<boxCol + 3]). (i, j) \<noteq> self \<and> b ! i ! j = v)
      \<longleftrightarrow> (\<exists>c. boxCol \<le> c \<and> c < boxCol + 3 \<and> (r, c) \<noteq> self \<and> b ! r ! c = v)"
    by auto
  finally have d: "dupScan b v self (map (\<lambda>c. (r, c)) [boxCol..<boxCol + 3])
      = Inr (\<exists>c. boxCol \<le> c \<and> c < boxCol + 3 \<and> (r, c) \<noteq> self \<and> b ! r ! c = v)" .
  from Cons have ih: "boxScan b v self boxCol entry rs =
     Inr (concat (map (\<lambda>r. if (\<exists>c. boxCol \<le> c \<and> c < boxCol + 3 \<and> (r, c) \<noteq> self \<and> b ! r ! c = v)
                           then [entry] else []) rs))"
    by simp
  show ?case by (simp only: boxScan.simps d ih) simp
qed

text \<open>
  \<open>conflict b s p q\<close>: the distinct cells \<open>p\<close> and \<open>q\<close> share the unit \<open>s\<close> and hold
  the same value, which is not empty.
\<close>

definition conflict :: "board \<Rightarrow> scope \<Rightarrow> nat \<times> nat \<Rightarrow> nat \<times> nat \<Rightarrow> bool" where
  "conflict b s p q \<longleftrightarrow>
     p \<noteq> q \<and> fst p < 9 \<and> snd p < 9 \<and> fst q < 9 \<and> snd q < 9
     \<and> \<not> isEmptyCell (b ! fst p ! snd p) \<and> b ! fst q ! snd q = b ! fst p ! snd p
     \<and> (case s of
          Row \<Rightarrow> fst p = fst q
        | Column \<Rightarrow> snd p = snd q
        | Box \<Rightarrow> fst p div 3 = fst q div 3 \<and> snd p div 3 = snd q div 3
        | Invalid \<Rightarrow> False)"

definition rowEntry :: "nat \<Rightarrow> nat \<Rightarrow> cell \<Rightarrow> ValidationError" where
  "rowEntry row col v =
     \<lparr>errRow = row, errCol = col, errType = Row,
      message = ''Duplicate '' @ showCell v @ '' in row''\<rparr>"

definition colEntry :: "nat \<Rightarrow> nat \<Rightarrow> cell \<Rightarrow> ValidationError" where
  "colEntry row col v =
     \<lparr>errRow = row, errCol = col, errType = Column,
      message = ''Duplicate '' @ showCell v @ '' in column''\<rparr>"

definition boxEntry :: "nat \<Rightarrow> nat \<Rightarrow> cell \<Rightarrow> ValidationError" where
  "boxEntry row col v =
     \<lparr>errRow = row, errCol = col, errType = Box,
      message = ''Duplicate '' @ showCell v @ '' in 3'' @ timesSign @ ''3 box''\<rparr>"

lemma box_origin: "n < 9 \<Longrightarrow> n div 3 * 3 + 3 \<le> 9" for n :: nat
proof -
  assume "n < 9"
  then have "n div 3 < 3" by (simp add: less_mult_imp_div_less)
  then show ?thesis by simp
qed

lemma in_box_iff: "n div 3 * 3 \<le> c \<and> c < n div 3 * 3 + 3 \<longleftrightarrow> c div 3 = n div 3" for n c :: nat
proof
  assume a: "n div 3 * 3 \<le> c \<and> c < n div 3 * 3 + 3"
  define k where "k = c - n div 3 * 3"
  with a have c: "c = k + n div 3 * 3" and k: "k < 3" by arith+
  from k show "c div 3 = n div 3" by (simp add: c)
next
  assume a: "c div 3 = n div 3"
  have "c = c mod 3 + c div 3 * 3" by simp
  moreover have "c mod 3 < 3" by simp
  ultimately show "n div 3 * 3 \<le> c \<and> c < n div 3 * 3 + 3" using a by linarith
qed

lemma cellErrors_shape9:
  assumes s: "shape9 b" and r: "row < 9" and c: "col < 9"
  shows "cellErrors b row col =
     Inr (if isEmptyCell (b ! row ! col) then []
          else (if (\<exists>q. conflict b Row (row, col) q) then [rowEntry row col (b ! row ! col)] else [])
             @ (if (\<exists>q. conflict b Column (row, col) q) then [colEntry row col (b ! row ! col)] else [])
             @ concat (map (\<lambda>i. if (\<exists>j. conflict b Box (row, col) (i, j))
                                then [boxEntry row col (b ! row ! col)] else [])
                         [row div 3 * 3..<row div 3 * 3 + 3]))"
proof (cases "isEmptyCell (b ! row ! col)")
  case True
  then show ?thesis
    by (simp add: cellErrors_def rd_shape9[OF s r c] isEmptyCell_def)
next
  case False
  define v where "v = b ! row ! col"
  have r1: "dupScan b v (row, col) (map (\<lambda>c. (row, c)) [0..<9])
      = Inr (\<exists>q. conflict b Row (row, col) q)"
  proof -
    have "dupScan b v (row, col) (map (\<lambda>c. (row, c)) [0..<9])
        = Inr (\<exists>(i, j) \<in> set (map (\<lambda>c. (row, c)) [0..<9]). (i, j) \<noteq> (row, col) \<and> b ! i ! j = v)"
      by (rule dupScan_shape9[OF s]) (simp add: set_rowCells r)
    also have "(\<exists>(i, j) \<in> set (map (\<lambda>c. (row, c)) [0..<9]). (i, j) \<noteq> (row, col) \<and> b ! i ! j = v)
        \<longleftrightarrow> (\<exists>q. conflict b Row (row, col) q)"
      unfolding set_rowCells conflict_def using False r c by (auto simp: v_def)
    finally show ?thesis .
  qed
  have r2: "dupScan b v (row, col) (map (\<lambda>r. (r, col)) [0..<9])
      = Inr (\<exists>q. conflict b Column (row, col) q)"
  proof -
    have "dupScan b v (row, col) (map (\<lambda>r. (r, col)) [0..<9])
        = Inr (\<exists>(i, j) \<in> set (map (\<lambda>r. (r, col)) [0..<9]). (i, j) \<noteq> (row, col) \<and> b ! i ! j = v)"
      by (rule dupScan_shape9[OF s]) (simp add: set_colCells c)
    also have "(\<exists>(i, j) \<in> set (map (\<lambda>r. (r, col)) [0..<9]). (i, j) \<noteq> (row, col) \<and> b ! i ! j = v)
        \<longleftrightarrow> (\<exists>q. conflict b Column (row, col) q)"
      unfolding set_colCells conflict_def using False r c by (auto simp: v_def)
    finally show ?thesis .
  qed
  have rows9: "\<forall>i \<in> set [row div 3 * 3..<row div 3 * 3 + 3]. i < 9"
    using box_origin[OF r] by auto
  have inbox: "(\<exists>j. col div 3 * 3 \<le> j \<and> j < col div 3 * 3 + 3 \<and> (i, j) \<noteq> (row, col) \<and> b ! i ! j = v)
      \<longleftrightarrow> (\<exists>j. conflict b Box (row, col) (i, j))"
    if "i \<in> set [row div 3 * 3..<row div 3 * 3 + 3]" for i
  proof -
    from that have i: "i div 3 = row div 3" using in_box_iff[of row i] by simp
    from that rows9 have i9: "i < 9" by blast
    have "col div 3 * 3 \<le> j \<and> j < col div 3 * 3 + 3 \<and> (i, j) \<noteq> (row, col) \<and> b ! i ! j = v
        \<longleftrightarrow> conflict b Box (row, col) (i, j)" for j
    proof (cases "j div 3 = col div 3")
      case True
      then have "col div 3 * 3 \<le> j \<and> j < col div 3 * 3 + 3" by (simp add: in_box_iff)
      moreover from this box_origin[OF c] have "j < 9" by simp
      ultimately show ?thesis
        unfolding conflict_def using False r c i i9 True by (auto simp: v_def)
    next
      case False
      then have "\<not> (col div 3 * 3 \<le> j \<and> j < col div 3 * 3 + 3)" by (simp add: in_box_iff)
      with False show ?thesis unfolding conflict_def by auto
    qed
    then show ?thesis by simp
  qed
  have r3: "boxScan b v (row, col) (col div 3 * 3)
        \<lparr>errRow = row, errCol = col, errType = Box,
         message = ''Duplicate '' @ showCell v @ '' in 3'' @ timesSign @ ''3 box''\<rparr>
        [row div 3 * 3..<row div 3 * 3 + 3]
      = Inr (concat (map (\<lambda>i. if (\<exists>j. conflict b Box (row, col) (i, j))
                                then [boxEntry row col v] else [])
                         [row div 3 * 3..<row div 3 * 3 + 3]))"
  proof -
    have "map (\<lambda>i. if (\<exists>j. col div 3 * 3 \<le> j \<and> j < col div 3 * 3 + 3 \<and> (i, j) \<noteq> (row, col) \<and> b ! i ! j = v)
                     then [boxEntry row col v] else []) [row div 3 * 3..<row div 3 * 3 + 3]
        = map (\<lambda>i. if (\<exists>j. conflict b Box (row, col) (i, j)) then [boxEntry row col v] else [])
            [row div 3 * 3..<row div 3 * 3 + 3]"
      by (rule map_cong[OF refl]) (simp only: inbox)
    with boxScan_shape9[OF s rows9 box_origin[OF c], of v "(row, col)" "boxEntry row col v"]
    show ?thesis by (simp only: boxEntry_def)
  qed
  from False have ne: "\<not> (v = Null \<or> v = Num 0)" by (simp add: v_def isEmptyCell_def)
  have "cellErrors b row col =
     Inr ((if (\<exists>q. conflict b Row (row, col) q) then [rowEntry row col v] else [])
        @ (if (\<exists>q. conflict b Column (row, col) q) then [colEntry row col v] else [])
        @ concat (map (\<lambda>i. if (\<exists>j. conflict b Box (row, col) (i, j))
                                then [boxEntry row col v] else [])
                         [row div 3 * 3..<row div 3 * 3 + 3]))"
    unfolding cellErrors_def rd_shape9[OF s r c] v_def[symmetric] Let_def
    by (simp only: sum.case ne if_False r1 r2 r3 rowEntry_def colEntry_def)
  with False show ?thesis unfolding v_def by simp
qed

definition entries :: "board \<Rightarrow> nat \<Rightarrow> nat \<Rightarrow> ValidationError list" where
  "entries b row col = (case cellErrors b row col of Inl e \<Rightarrow> [] | Inr es \<Rightarrow> es)"

lemma cellErrors_entries:
  "shape9 b \<Longrightarrow> row < 9 \<Longrightarrow> col < 9 \<Longrightarrow> cellErrors b row col = Inr (entries b row col)"
  by (simp add: entries_def cellErrors_shape9)

lemma validateCells_shape9:
  "shape9 b \<Longrightarrow> \<forall>(i, j) \<in> set ps. i < 9 \<and> j < 9 \<Longrightarrow>
   validateCells b ps = Inr (concat (map (\<lambda>(i, j). entries b i j) ps))"
proof (induction ps)
  case Nil
  then show ?case by simp
next
  case (Cons p ps)
  obtain row col where p: "p = (row, col)" by (cases p)
  with Cons.prems have "cellErrors b row col = Inr (entries b row col)"
    by (simp add: cellErrors_entries)
  moreover from Cons have "validateCells b ps = Inr (concat (map (\<lambda>(i, j). entries b i j) ps))"
    by simp
  ultimately show ?case by (simp add: p)
qed

lemma concat_allCells:
  "concat (map (\<lambda>(i, j). f i j) (concat (map (\<lambda>i. map (\<lambda>j. (i, j)) ys) xs)))
     = concat (map (\<lambda>i. concat (map (\<lambda>j. f i j) ys)) xs)"
  by (induction xs) (simp_all add: o_def)

lemma validateBoard_shape9:
  assumes "shape9 b"
  shows "validateBoard b = Inr (concat (map (\<lambda>i. concat (map (\<lambda>j. entries b i j) [0..<9])) [0..<9]))"
proof -
  have "validateBoard b = Inr (concat (map (\<lambda>(i, j). entries b i j) allCells))"
    unfolding validateBoard_def
    by (rule validateCells_shape9[OF assms]) (simp add: set_allCells)
  then show ?thesis
    unfolding allCells_def by (simp only: concat_allCells)
qed

lemma concat_none: "\<forall>x \<in> set xs. g x = [] \<Longrightarrow> concat (map g xs) = []"
  by (induction xs) auto

lemma upt_split: "i \<le> k \<Longrightarrow> k < n \<Longrightarrow> [i..<n] = [i..<k] @ k # [Suc k..<n]"
proof -
  assume ik: "i \<le> k" and kn: "k < n"
  then obtain m where n: "n = k + m" using less_imp_add_positive by blast
  have "[i..<k + m] = [i..<k] @ [k..<k + m]" using ik by (rule upt_add_eq_append)
  moreover have "[k..<n] = k # [Suc k..<n]" using kn by (rule upt_conv_Cons)
  ultimately show ?thesis by (simp only: n)
qed

lemma concat_one:
  assumes "k < n" and "\<forall>x<n. x \<noteq> k \<longrightarrow> g x = []"
  shows "concat (map g [0..<n]) = g k"
proof -
  have a: "concat (map g [0..<k]) = []" by (rule concat_none) (use assms in auto)
  have b: "concat (map g [Suc k..<n]) = []" by (rule concat_none) (use assms in auto)
  have "concat (map g [0..<n]) = concat (map g [0..<k]) @ g k @ concat (map g [Suc k..<n])"
    unfolding upt_split[OF le0 assms(1)] by simp
  then show ?thesis unfolding a b by simp
qed

lemma concat_two:
  assumes "k1 < k2" and "k2 < n" and "\<forall>x<n. x \<noteq> k1 \<and> x \<noteq> k2 \<longrightarrow> g x = []"
  shows "concat (map g [0..<n]) = g k1 @ g k2"
proof -
  have a: "concat (map g [0..<k1]) = []" by (rule concat_none) (use assms in auto)
  have b: "concat (map g [Suc k1..<k2]) = []" by (rule concat_none) (use assms in auto)
  have c: "concat (map g [Suc k2..<n]) = []" by (rule concat_none) (use assms in auto)
  have k1n: "k1 < n" using assms(1,2) by simp
  have s2: "[Suc k1..<n] = [Suc k1..<k2] @ k2 # [Suc k2..<n]"
    using assms(1,2) by (intro upt_split) simp_all
  have "concat (map g [0..<n]) =
      concat (map g [0..<k1]) @ g k1 @ concat (map g [Suc k1..<k2]) @ g k2 @ concat (map g [Suc k2..<n])"
    unfolding upt_split[OF le0 k1n] s2 by simp
  then show ?thesis unfolding a b c by simp
qed

lemma entries_empty_cell:
  "shape9 b \<Longrightarrow> row < 9 \<Longrightarrow> col < 9 \<Longrightarrow> isEmptyCell (b ! row ! col) \<Longrightarrow> entries b row col = []"
  by (simp add: entries_def cellErrors_shape9)

lemma entries_no_conflict:
  assumes "shape9 b" and "row < 9" and "col < 9" and "\<forall>s q. \<not> conflict b s (row, col) q"
  shows "entries b row col = []"
proof -
  from assms(4) have "concat (map (\<lambda>i. if (\<exists>j. conflict b Box (row, col) (i, j))
                                then [boxEntry row col (b ! row ! col)] else [])
                         [row div 3 * 3..<row div 3 * 3 + 3]) = []"
    by (intro concat_none) simp
  with assms(4) show ?thesis
    by (simp add: entries_def cellErrors_shape9[OF assms(1,2,3)])
qed

lemma entries_row_only:
  assumes "shape9 b" and "row < 9" and "col < 9" and "\<not> isEmptyCell (b ! row ! col)"
    and "\<exists>q. conflict b Row (row, col) q"
    and "\<forall>s q. conflict b s (row, col) q \<longrightarrow> s = Row"
  shows "entries b row col = [rowEntry row col (b ! row ! col)]"
proof -
  from assms(6) have nc: "\<not> (\<exists>q. conflict b Column (row, col) q)" by blast
  from assms(6) have nb: "\<And>i. \<not> (\<exists>j. conflict b Box (row, col) (i, j))" by blast
  have "concat (map (\<lambda>i. if (\<exists>j. conflict b Box (row, col) (i, j))
                                then [boxEntry row col (b ! row ! col)] else [])
                         [row div 3 * 3..<row div 3 * 3 + 3]) = []"
    by (intro concat_none) (simp add: nb)
  with assms(4,5) nc show ?thesis
    by (simp add: entries_def cellErrors_shape9[OF assms(1,2,3)])
qed

lemma entries_cell:
  assumes "shape9 b" and "row < 9" and "col < 9" and "e \<in> set (entries b row col)"
  shows "errRow e = row \<and> errCol e = col \<and> \<not> isEmptyCell (b ! row ! col)"
proof (cases "isEmptyCell (b ! row ! col)")
  case True
  with assms show ?thesis by (simp add: entries_empty_cell)
next
  case False
  with assms(4) show ?thesis
    by (auto simp: entries_def cellErrors_shape9[OF assms(1,2,3)]
          rowEntry_def colEntry_def boxEntry_def split: if_splits)
qed

lemma placedOk_no_conflict:
  assumes "placedOk b i j"
  shows "\<not> conflict b s (i, j) q"
proof
  assume c: "conflict b s (i, j) q"
  from assms obtain d where d: "b ! i ! j = Num d"
    and other: "\<forall>p q. inUnit i j p q \<and> (p, q) \<noteq> (i, j) \<longrightarrow> b ! p ! q \<noteq> Num d"
    unfolding placedOk_def by blast
  obtain p' q' where q: "q = (p', q')" by (cases q)
  from c have "inUnit i j p' q'" and "(p', q') \<noteq> (i, j)" and "b ! p' ! q' = b ! i ! j"
    unfolding conflict_def inUnit_def q by (auto split: scope.splits)
  with other d show False by auto
qed

text \<open>
  C7 (as amended). On a 9\<times>9 board: (a) when every cell holds a digit from 1 to 9
  that no other cell of its row, column or box holds, \<open>validateBoard\<close> returns the empty
  list; (b) when two cells of one row hold 5, the two cells lie in different boxes, and
  nothing else is wrong (no other two distinct cells that share a row, a column or a box
  hold equal non-empty values), it returns exactly two entries, one for each of the two
  cells in the order of their columns, both of type \<open>row\<close>; (c) it always returns a list,
  and every entry of the list names a cell that is not empty.
\<close>

theorem validateBoard_reports:
  assumes "shape9 board"
  shows "((\<forall>i<9. \<forall>j<9. placedOk board i j) \<longrightarrow> validateBoard board = Inr [])
       \<and> (\<forall>r c1 c2. r < 9 \<and> c1 < c2 \<and> c2 < 9
              \<and> board ! r ! c1 = Num 5 \<and> board ! r ! c2 = Num 5
              \<and> c1 div 3 \<noteq> c2 div 3
              \<and> (\<forall>s p q. conflict board s p q \<longrightarrow> {p, q} = {(r, c1), (r, c2)})
            \<longrightarrow> validateBoard board =
                  Inr [\<lparr>errRow = r, errCol = c1, errType = Row, message = ''Duplicate 5 in row''\<rparr>,
                       \<lparr>errRow = r, errCol = c2, errType = Row, message = ''Duplicate 5 in row''\<rparr>])
       \<and> (\<exists>errs. validateBoard board = Inr errs
              \<and> (\<forall>e \<in> set errs. errRow e < 9 \<and> errCol e < 9
                    \<and> \<not> isEmptyCell (board ! errRow e ! errCol e)))"
proof (intro conjI allI impI)
  assume ok: "\<forall>i<9. \<forall>j<9. placedOk board i j"
  have "entries board i j = []" if "i < 9" "j < 9" for i j
    by (rule entries_no_conflict[OF assms that]) (use ok that placedOk_no_conflict in blast)
  then have "concat (map (\<lambda>i. concat (map (\<lambda>j. entries board i j) [0..<9])) [0..<9]) = []"
    by (intro concat_none) simp
  then show "validateBoard board = Inr []"
    by (simp only: validateBoard_shape9[OF assms])
next
  fix r c1 c2
  assume h: "r < 9 \<and> c1 < c2 \<and> c2 < 9
              \<and> board ! r ! c1 = Num 5 \<and> board ! r ! c2 = Num 5
              \<and> c1 div 3 \<noteq> c2 div 3
              \<and> (\<forall>s p q. conflict board s p q \<longrightarrow> {p, q} = {(r, c1), (r, c2)})"
  then have r: "r < 9" and c12: "c1 < c2" and c2: "c2 < 9"
    and v1: "board ! r ! c1 = Num 5" and v2: "board ! r ! c2 = Num 5"
    and boxes: "c1 div 3 \<noteq> c2 div 3"
    by simp_all
  from c12 c2 have c1: "c1 < 9" by simp
  from h have pair: "\<And>s p q. conflict board s p q \<Longrightarrow> {p, q} = {(r, c1), (r, c2)}"
    by blast
  have only: "s = Row \<and> {p, q} = {(r, c1), (r, c2)}" if cf: "conflict board s p q" for s p q
  proof -
    from pair[OF cf] have pq: "{p, q} = {(r, c1), (r, c2)}" .
    from cf have "p \<noteq> q" by (simp add: conflict_def)
    with pq have "(p = (r, c1) \<and> q = (r, c2)) \<or> (p = (r, c2) \<and> q = (r, c1))"
      by (auto simp: doubleton_eq_iff)
    with c12 boxes have "snd p \<noteq> snd q" "snd p div 3 \<noteq> snd q div 3" by auto
    with cf have "s = Row" by (cases s) (simp_all add: conflict_def)
    with pq show ?thesis by simp
  qed
  have other: "entries board i j = []" if "i < 9" "j < 9" "(i, j) \<noteq> (r, c1)" "(i, j) \<noteq> (r, c2)" for i j
  proof (rule entries_no_conflict[OF assms that(1,2)], intro allI notI)
    fix s q assume "conflict board s (i, j) q"
    from only[OF this] that(3,4) show False by (auto simp: doubleton_eq_iff)
  qed
  have e1: "entries board r c1 = [rowEntry r c1 (Num 5)]"
  proof -
    have "conflict board Row (r, c1) (r, c2)"
      using r c1 c2 c12 v1 v2 by (simp add: conflict_def)
    then have "\<exists>q. conflict board Row (r, c1) q" ..
    with entries_row_only[OF assms r c1, unfolded v1] only show ?thesis by auto
  qed
  have e2: "entries board r c2 = [rowEntry r c2 (Num 5)]"
  proof -
    have "conflict board Row (r, c2) (r, c1)"
      using r c1 c2 c12 v1 v2 by (simp add: conflict_def)
    then have "\<exists>q. conflict board Row (r, c2) q" ..
    with entries_row_only[OF assms r c2, unfolded v2] only show ?thesis by auto
  qed
  have rows: "concat (map (\<lambda>j. entries board i j) [0..<9]) = []" if "i < 9" "i \<noteq> r" for i
    by (rule concat_none) (use other that in auto)
  have "concat (map (\<lambda>j. entries board r j) [0..<9]) = entries board r c1 @ entries board r c2"
    by (rule concat_two[OF c12 c2]) (use other r in auto)
  moreover have "concat (map (\<lambda>i. concat (map (\<lambda>j. entries board i j) [0..<9])) [0..<9])
      = concat (map (\<lambda>j. entries board r j) [0..<9])"
    by (rule concat_one[OF r]) (use rows in blast)
  moreover have "showCell (Num 5) = ''5''" by code_simp
  ultimately show "validateBoard board =
      Inr [\<lparr>errRow = r, errCol = c1, errType = Row, message = ''Duplicate 5 in row''\<rparr>,
           \<lparr>errRow = r, errCol = c2, errType = Row, message = ''Duplicate 5 in row''\<rparr>]"
    by (simp add: validateBoard_shape9[OF assms] e1 e2 rowEntry_def)
next
  let ?errs = "concat (map (\<lambda>i. concat (map (\<lambda>j. entries board i j) [0..<9])) [0..<9])"
  have "errRow e < 9 \<and> errCol e < 9 \<and> \<not> isEmptyCell (board ! errRow e ! errCol e)"
    if "e \<in> set ?errs" for e
  proof -
    from that obtain i j where "i < 9" "j < 9" "e \<in> set (entries board i j)" by auto
    with entries_cell[OF assms this] show ?thesis by simp
  qed
  with validateBoard_shape9[OF assms]
  show "\<exists>errs. validateBoard board = Inr errs
          \<and> (\<forall>e \<in> set errs. errRow e < 9 \<and> errCol e < 9
                \<and> \<not> isEmptyCell (board ! errRow e ! errCol e))"
    by blast
qed

theorem validateBoard_reports_witness:
  "shape9 twoFivesApart
     \<and> validateBoard twoFivesApart =
          Inr [\<lparr>errRow = 0, errCol = 0, errType = Row, message = ''Duplicate 5 in row''\<rparr>,
               \<lparr>errRow = 0, errCol = 4, errType = Row, message = ''Duplicate 5 in row''\<rparr>]"
proof -
  have s: "shape9 twoFivesApart" by code_simp
  have v1: "twoFivesApart ! 0 ! 0 = Num 5" and v2: "twoFivesApart ! 0 ! 4 = Num 5"
    by code_simp+
  have "list_all (\<lambda>(i, j). \<not> isEmptyCell (twoFivesApart ! i ! j) \<longrightarrow> (i, j) = (0, 0) \<or> (i, j) = (0, 4))
          allCells"
    by code_simp
  then have filled: "\<forall>i<9. \<forall>j<9. \<not> isEmptyCell (twoFivesApart ! i ! j) \<longrightarrow> (i, j) = (0, 0) \<or> (i, j) = (0, 4)"
    by (simp only: all_cells_iff)
  have only: "{p, q} = {(0, 0), (0, 4)}" if c: "conflict twoFivesApart s p q" for s p q
  proof -
    from c have pq: "p \<noteq> q" and p9: "fst p < 9" "snd p < 9" and q9: "fst q < 9" "snd q < 9"
      and pe: "\<not> isEmptyCell (twoFivesApart ! fst p ! snd p)"
      and eq: "twoFivesApart ! fst q ! snd q = twoFivesApart ! fst p ! snd p"
      by (simp_all add: conflict_def)
    from filled p9 pe have p: "p = (0, 0) \<or> p = (0, 4)" by (cases p) auto
    from filled q9 pe eq have q: "q = (0, 0) \<or> q = (0, 4)" by (cases q) auto
    from p q pq show ?thesis by auto
  qed
  from validateBoard_reports[OF s] have
    "\<forall>r c1 c2. r < 9 \<and> c1 < c2 \<and> c2 < 9
          \<and> twoFivesApart ! r ! c1 = Num 5 \<and> twoFivesApart ! r ! c2 = Num 5
          \<and> c1 div 3 \<noteq> c2 div 3
          \<and> (\<forall>s p q. conflict twoFivesApart s p q \<longrightarrow> {p, q} = {(r, c1), (r, c2)})
        \<longrightarrow> validateBoard twoFivesApart =
              Inr [\<lparr>errRow = r, errCol = c1, errType = Row, message = ''Duplicate 5 in row''\<rparr>,
                   \<lparr>errRow = r, errCol = c2, errType = Row, message = ''Duplicate 5 in row''\<rparr>]"
    by (rule conjunct1[OF conjunct2])
  then have "0 < (9::nat) \<and> (0::nat) < 4 \<and> (4::nat) < 9
          \<and> twoFivesApart ! 0 ! 0 = Num 5 \<and> twoFivesApart ! 0 ! 4 = Num 5
          \<and> (0::nat) div 3 \<noteq> 4 div 3
          \<and> (\<forall>s p q. conflict twoFivesApart s p q \<longrightarrow> {p, q} = {(0, 0), (0, 4)})
        \<longrightarrow> validateBoard twoFivesApart =
              Inr [\<lparr>errRow = 0, errCol = 0, errType = Row, message = ''Duplicate 5 in row''\<rparr>,
                   \<lparr>errRow = 0, errCol = 4, errType = Row, message = ''Duplicate 5 in row''\<rparr>]"
    by blast
  moreover have "0 < (9::nat) \<and> (0::nat) < 4 \<and> (4::nat) < 9
          \<and> twoFivesApart ! 0 ! 0 = Num 5 \<and> twoFivesApart ! 0 ! 4 = Num 5
          \<and> (0::nat) div 3 \<noteq> 4 div 3
          \<and> (\<forall>s p q. conflict twoFivesApart s p q \<longrightarrow> {p, q} = {(0, 0), (0, 4)})"
    using v1 v2 only by simp
  ultimately have "validateBoard twoFivesApart =
              Inr [\<lparr>errRow = 0, errCol = 0, errType = Row, message = ''Duplicate 5 in row''\<rparr>,
                   \<lparr>errRow = 0, errCol = 4, errType = Row, message = ''Duplicate 5 in row''\<rparr>]"
    by (rule mp)
  with s show ?thesis by (rule conjI)
qed

text \<open>
  The claim as written has no condition on the boxes. It fails when the two 5s of the row
  also share a box: on the board that is empty except for 5s in the first two cells of the
  first row, each of the two cells gets a \<open>row\<close> entry and a \<open>box\<close> entry, four
  entries in all.
\<close>

theorem validateBoard_two_fives_same_box_counterexample:
  "shape9 twoFives \<and> twoFives ! 0 ! 0 = Num 5 \<and> twoFives ! 0 ! 1 = Num 5
   \<and> list_all (\<lambda>(i, j). (i, j) = (0, 0) \<or> (i, j) = (0, 1) \<or> twoFives ! i ! j = Null) allCells
   \<and> validateBoard twoFives =
     Inr [\<lparr>errRow = 0, errCol = 0, errType = Row, message = ''Duplicate 5 in row''\<rparr>,
          \<lparr>errRow = 0, errCol = 0, errType = Box,
           message = ''Duplicate 5 in 3'' @ timesSign @ ''3 box''\<rparr>,
          \<lparr>errRow = 0, errCol = 1, errType = Row, message = ''Duplicate 5 in row''\<rparr>,
          \<lparr>errRow = 0, errCol = 1, errType = Box,
           message = ''Duplicate 5 in 3'' @ timesSign @ ''3 box''\<rparr>]"
  by code_simp

section \<open>The generator (sudokuGenerator.ts)\<close>

text \<open>
  \<open>Math.random\<close> is the only source of randomness. The model does not compute with
  floating-point numbers: it takes the sequence \<open>g\<close> of numbers from which the calls
  \<open>Math.floor(Math.random() * k)\<close> draw their results, one after the other. A call
  yields \<open>g 0 mod k\<close>, a number below \<open>k\<close>, and leaves the rest of the sequence; every
  number below \<open>k\<close> is a possible result.
\<close>

type_synonym rng = "nat \<Rightarrow> nat"

definition randomBelow :: "nat \<Rightarrow> rng \<Rightarrow> nat \<times> rng" where
  "randomBelow k g = (g 0 mod k, \<lambda>n. g (Suc n))"

definition createEmptyBoard :: board where
  "createEmptyBoard = replicate 9 (replicate 9 Null)"

text \<open>
  \<open>shuffleFrom i newArray g\<close> is the loop of \<open>shuffle\<close> entered with index \<open>i\<close>; the
  indices it uses are within the array (\<open>j \<le> i < length newArray\<close>).
\<close>

primrec shuffleFrom :: "nat \<Rightarrow> 'a list \<Rightarrow> rng \<Rightarrow> 'a list \<times> rng" where
  "shuffleFrom 0 newArray g = (newArray, g)"
| "shuffleFrom (Suc i) newArray g =
     (case randomBelow (Suc i + 1) g of
        (j, g') \<Rightarrow> shuffleFrom i (newArray[Suc i := newArray ! j, j := newArray ! Suc i]) g')"

definition shuffle :: "'a list \<Rightarrow> rng \<Rightarrow> 'a list \<times> rng" where
  "shuffle array g = shuffleFrom (length array - 1) array g"

text \<open>
  \<open>firstNull\<close> is the expression both \<open>fillBoard\<close> and \<open>countSolutions\<close> use to find
  the first cell that is \<open>null\<close>: it maps every cell to its position or to \<open>null\<close>,
  filters, and takes the first element, \<open>undefined\<close> (here \<open>None\<close>) when there is none.
\<close>

definition firstNull :: "board \<Rightarrow> (nat \<times> nat) option" where
  "firstNull board =
     (case filter (\<lambda>pos. pos \<noteq> None)
             (concat (map (\<lambda>(i, row). map (\<lambda>(j, c). if c = Null then Some (i, j) else None)
                                        (enumerate 0 row))
                        (enumerate 0 board))) of
        [] \<Rightarrow> None
      | pos # _ \<Rightarrow> pos)"

function fillBoard :: "board \<Rightarrow> rng \<Rightarrow> error + (bool \<times> board \<times> rng)"
  and fillFrom :: "board \<Rightarrow> nat \<Rightarrow> nat \<Rightarrow> int list \<Rightarrow> rng \<Rightarrow> error + (bool \<times> board \<times> rng)"
where
  "fillBoard board g =
     (case firstNull board of
        None \<Rightarrow> Inr (True, board, g)
      | Some (row, col) \<Rightarrow>
         (case shuffle [1, 2, 3, 4, 5, 6, 7, 8, 9] g of
            (numbers, g1) \<Rightarrow> fillFrom board row col numbers g1))"
| "fillFrom board row col [] g = Inr (False, board, g)"
| "fillFrom board row col (num # numbers) g =
     (case isValid board row col num of
        Inl e \<Rightarrow> Inl e
      | Inr False \<Rightarrow> fillFrom board row col numbers g
      | Inr True \<Rightarrow>
         (case wr board row col (Num num) of
            Inl e \<Rightarrow> Inl e
          | Inr b1 \<Rightarrow>
             (case fillBoard b1 g of
                Inl e \<Rightarrow> Inl e
              | Inr (True, b2, g2) \<Rightarrow> Inr (True, b2, g2)
              | Inr (False, b2, g2) \<Rightarrow>
                 (case wr b2 row col Null of
                    Inl e \<Rightarrow> Inl e
                  | Inr b3 \<Rightarrow> fillFrom b3 row col numbers g2))))"
  by pat_completeness auto

text \<open>
  \<open>countSolutions\<close> returns the count; the model also returns the board it leaves.
  \<open>countFrom\<close> is its loop over the digits, entered at \<open>num\<close> with the running
  \<open>count\<close>.
\<close>

function countSolutions :: "board \<Rightarrow> nat \<Rightarrow> error + (nat \<times> board)"
  and countFrom :: "board \<Rightarrow> nat \<Rightarrow> nat \<Rightarrow> nat \<Rightarrow> nat \<Rightarrow> nat \<Rightarrow> error + (nat \<times> board)"
where
  "countSolutions board limit =
     (case firstNull board of
        None \<Rightarrow> Inr (1, board)
      | Some (row, col) \<Rightarrow> countFrom board limit row col 1 0)"
| "countFrom board limit row col num count =
     (if 9 < num then Inr (count, board)
      else case isValid board row col (int num) of
        Inl e \<Rightarrow> Inl e
      | Inr False \<Rightarrow> countFrom board limit row col (num + 1) count
      | Inr True \<Rightarrow>
         (case wr board row col (Num (int num)) of
            Inl e \<Rightarrow> Inl e
          | Inr b1 \<Rightarrow>
             (case countSolutions b1 limit of
                Inl e \<Rightarrow> Inl e
              | Inr (k, b2) \<Rightarrow>
                 (case wr b2 row col Null of
                    Inl e \<Rightarrow> Inl e
                  | Inr b3 \<Rightarrow>
                     if limit \<le> count + k then Inr (count + k, b3)
                     else countFrom b3 limit row col (num + 1) (count + k)))))"
  by pat_completeness auto

text \<open>
  \<open>removeLoop\<close> is the loop of \<open>removeNumbers\<close> over the shuffled cells; the solution
  count is taken on a copy of the board, so the board \<open>countSolutions\<close> leaves is dropped.
\<close>

fun removeLoop :: "board \<Rightarrow> nat \<Rightarrow> nat \<Rightarrow> (nat \<times> nat) list \<Rightarrow> error + board" where
  "removeLoop board cellsToRemove removed [] = Inr board"
| "removeLoop board cellsToRemove removed ((row, col) # cells) =
     (if cellsToRemove \<le> removed then Inr board
      else case rd board row col of
        Inl e \<Rightarrow> Inl e
      | Inr backup \<Rightarrow>
         (case wr board row col Null of
            Inl e \<Rightarrow> Inl e
          | Inr b1 \<Rightarrow>
             (case countSolutions b1 2 of
                Inl e \<Rightarrow> Inl e
              | Inr (k, testBoard) \<Rightarrow>
                 if k \<noteq> 1
                 then (case wr b1 row col backup of
                         Inl e \<Rightarrow> Inl e
                       | Inr b2 \<Rightarrow> removeLoop b2 cellsToRemove removed cells)
                 else removeLoop b1 cellsToRemove (removed + 1) cells)))"

definition removeNumbers :: "board \<Rightarrow> nat \<Rightarrow> rng \<Rightarrow> error + (board \<times> rng)" where
  "removeNumbers board cellsToRemove g =
     (case shuffle (map (\<lambda>i. (i div 9, i mod 9)) [0..<81]) g of
        (shuffledCells, g') \<Rightarrow>
          (case removeLoop board cellsToRemove 0 shuffledCells of
             Inl e \<Rightarrow> Inl e
           | Inr b \<Rightarrow> Inr (b, g')))"

datatype difficulty = Easy | Medium | Hard

definition cellsToRemoveFor :: "difficulty \<Rightarrow> nat" where
  "cellsToRemoveFor d = (case d of Easy \<Rightarrow> 40 | Medium \<Rightarrow> 50 | Hard \<Rightarrow> 57)"

text \<open>
  \<open>generateSudoku\<close> ignores the boolean \<open>fillBoard\<close> returns and goes on with the board
  it leaves.
\<close>

definition generateSudoku :: "difficulty \<Rightarrow> rng \<Rightarrow> error + (board \<times> rng)" where
  "generateSudoku d g =
     (case fillBoard createEmptyBoard g of
        Inl e \<Rightarrow> Inl e
      | Inr (filled, board, g1) \<Rightarrow> removeNumbers board (cellsToRemoveFor d) g1)"

definition examplePuzzle :: board where
  "examplePuzzle =
    [[Num 5, Num 3, Null, Null, Num 7, Null, Null, Null, Null],
     [Num 6, Null, Null, Num 1, Num 9, Num 5, Null, Null, Null],
     [Null, Num 9, Num 8, Null, Null, Null, Null, Num 6, Null],
     [Num 8, Null, Null, Null, Num 6, Null, Null, Null, Num 3],
     [Num 4, Null, Null, Num 8, Null, Num 3, Null, Null, Num 1],
     [Num 7, Null, Null, Null, Num 2, Null, Null, Null, Num 6],
     [Null, Num 6, Null, Null, Null, Null, Num 2, Num 8, Null],
     [Null, Null, Null, Num 4, Num 1, Num 9, Null, Null, Num 5],
     [Null, Null, Null, Null, Num 8, Null, Null, Num 7, Num 9]]"

section \<open>Termination of fillBoard and countSolutions\<close>

definition isNull :: "cell \<Rightarrow> bool" where
  "isNull v \<longleftrightarrow> v = Null"

lemma isNull_simps [simp]: "\<not> isNull Undefined" "isNull Null" "\<not> isNull (Num n)"
  by (simp_all add: isNull_def)

lemma firstNull_row:
  "Some (i, j) \<in> set (map (\<lambda>(j, c). if c = Null then Some (k, j) else None) (enumerate 0 row))
     \<longleftrightarrow> i = k \<and> j < length row \<and> row ! j = Null"
proof
  assume "Some (i, j) \<in> set (map (\<lambda>(j, c). if c = Null then Some (k, j) else None) (enumerate 0 row))"
  then obtain p where p: "p \<in> set (enumerate 0 row)"
    and e: "Some (i, j) = (case p of (j, c) \<Rightarrow> if c = Null then Some (k, j) else None)"
    by auto
  obtain j' c where pj: "p = (j', c)" by (cases p)
  from e pj have "c = Null" "i = k" "j = j'" by (auto split: if_splits)
  moreover from p pj have "j' < length row" "row ! j' = c" by (simp_all add: in_set_enumerate_eq)
  ultimately show "i = k \<and> j < length row \<and> row ! j = Null" by simp
next
  assume a: "i = k \<and> j < length row \<and> row ! j = Null"
  then have "(j, Null) \<in> set (enumerate 0 row)" by (simp add: in_set_enumerate_eq)
  then have "(case (j, Null) of (j, c) \<Rightarrow> if c = Null then Some (k, j) else None)
      \<in> set (map (\<lambda>(j, c). if c = Null then Some (k, j) else None) (enumerate 0 row))"
    unfolding set_map by (rule imageI)
  with a show "Some (i, j) \<in> set (map (\<lambda>(j, c). if c = Null then Some (k, j) else None) (enumerate 0 row))"
    by simp
qed

lemma firstNull_set:
  "Some (i, j) \<in> set (concat (map (\<lambda>(i, row). map (\<lambda>(j, c). if c = Null then Some (i, j) else None)
                                        (enumerate 0 row))
                        (enumerate 0 board)))
     \<longleftrightarrow> i < length board \<and> j < length (board ! i) \<and> board ! i ! j = Null"
proof
  assume "Some (i, j) \<in> set (concat (map (\<lambda>(i, row). map (\<lambda>(j, c). if c = Null then Some (i, j) else None)
                                        (enumerate 0 row))
                        (enumerate 0 board)))"
  then obtain p where p: "p \<in> set (enumerate 0 board)"
    and e: "Some (i, j) \<in> set (case p of (i, row) \<Rightarrow> map (\<lambda>(j, c). if c = Null then Some (i, j) else None)
                                        (enumerate 0 row))"
    unfolding set_concat set_map by blast
  obtain k row where pk: "p = (k, row)" by (cases p)
  from e pk have "i = k \<and> j < length row \<and> row ! j = Null" by (simp only: prod.case firstNull_row)
  moreover from p pk have "k < length board" "board ! k = row" by (simp_all add: in_set_enumerate_eq)
  ultimately show "i < length board \<and> j < length (board ! i) \<and> board ! i ! j = Null" by simp
next
  assume a: "i < length board \<and> j < length (board ! i) \<and> board ! i ! j = Null"
  then have m: "(i, board ! i) \<in> set (enumerate 0 board)" by (simp add: in_set_enumerate_eq)
  from a have inner: "Some (i, j) \<in> set (map (\<lambda>(j, c). if c = Null then Some (i, j) else None)
                                        (enumerate 0 (board ! i)))"
    by (simp only: firstNull_row)
  from m have "(case (i, board ! i) of (i, row) \<Rightarrow> map (\<lambda>(j, c). if c = Null then Some (i, j) else None)
                                        (enumerate 0 row))
      \<in> set (map (\<lambda>(i, row). map (\<lambda>(j, c). if c = Null then Some (i, j) else None)
                                        (enumerate 0 row))
                        (enumerate 0 board))"
    unfolding set_map by (rule imageI)
  then have "map (\<lambda>(j, c). if c = Null then Some (i, j) else None) (enumerate 0 (board ! i))
      \<in> set (map (\<lambda>(i, row). map (\<lambda>(j, c). if c = Null then Some (i, j) else None)
                                        (enumerate 0 row))
                        (enumerate 0 board))"
    by simp
  with inner show "Some (i, j) \<in> set (concat (map (\<lambda>(i, row). map (\<lambda>(j, c). if c = Null then Some (i, j) else None)
                                        (enumerate 0 row))
                        (enumerate 0 board)))"
    unfolding set_concat by blast
qed

lemma in_filterD: "x \<in> set (filter P xs) \<Longrightarrow> x \<in> set xs \<and> P x"
  by simp

lemma in_filterI: "x \<in> set xs \<Longrightarrow> P x \<Longrightarrow> x \<in> set (filter P xs)"
  by simp

lemma firstNull_Some:
  assumes "firstNull board = Some (i, j)"
  shows "i < length board \<and> j < length (board ! i) \<and> board ! i ! j = Null"
proof -
  let ?L = "concat (map (\<lambda>(i, row). map (\<lambda>(j, c). if c = Null then Some (i, j) else None)
                                        (enumerate 0 row))
                        (enumerate 0 board))"
  from assms obtain rest where f: "filter (\<lambda>pos. pos \<noteq> None) ?L = Some (i, j) # rest"
    unfolding firstNull_def by (auto split: list.splits)
  have "Some (i, j) \<in> set (filter (\<lambda>pos. pos \<noteq> None) ?L)" unfolding f by simp
  then have "Some (i, j) \<in> set ?L" by (rule in_filterD[THEN conjunct1])
  then show ?thesis by (simp only: firstNull_set)
qed

lemma firstNull_None:
  assumes "firstNull board = None" and "i < length board" and "j < length (board ! i)"
  shows "board ! i ! j \<noteq> Null"
proof
  let ?L = "concat (map (\<lambda>(i, row). map (\<lambda>(j, c). if c = Null then Some (i, j) else None)
                                        (enumerate 0 row))
                        (enumerate 0 board))"
  assume "board ! i ! j = Null"
  with assms(2,3) have "Some (i, j) \<in> set ?L" by (simp only: firstNull_set)
  then have m: "Some (i, j) \<in> set (filter (\<lambda>pos. pos \<noteq> None) ?L)"
    by (rule in_filterI) simp
  show False
  proof (cases "filter (\<lambda>pos. pos \<noteq> None) ?L")
    case Nil
    from m show False unfolding Nil by simp
  next
    case (Cons pos rest)
    have "pos \<in> set (filter (\<lambda>pos. pos \<noteq> None) ?L)" unfolding Cons by simp
    then have "pos \<noteq> None" by (rule in_filterD[THEN conjunct2])
    moreover from Cons assms(1) have "pos = None" by (simp add: firstNull_def)
    ultimately show False by contradiction
  qed
qed

lemma firstNull_cellsWhere: "firstNull b = Some (i, j) \<Longrightarrow> (i, j) \<in> cellsWhere isNull b"
  using firstNull_Some[of b i j] by (simp add: cellsWhere_def)

lemma fillBoard_partial_frame:
  "fillBoard_fillFrom_dom (Inl (b, g)) \<Longrightarrow>
     (\<forall>b' g'. fillBoard b g = Inr (False, b', g') \<longrightarrow>
        cellsWhere isNull b' \<subseteq> cellsWhere isNull b)"
  "fillBoard_fillFrom_dom (Inr (b, r, c, ns, g)) \<Longrightarrow>
     (\<forall>b' g'. fillFrom b r c ns g = Inr (False, b', g') \<longrightarrow>
        cellsWhere isNull b' \<subseteq> insert (r, c) (cellsWhere isNull b))"
proof (induction b g and b r c ns g rule: fillBoard_fillFrom.pinduct)
  case (1 board g)
  show ?case
  proof (intro allI impI)
    fix b' g' assume res: "fillBoard board g = Inr (False, b', g')"
    from res 1(1) obtain row col where fe: "firstNull board = Some (row, col)"
      by (auto simp: fillBoard.psimps split: option.splits)
    obtain numbers g1 where sh: "shuffle [1, 2, 3, 4, 5, 6, 7, 8, 9 :: int] g = (numbers, g1)"
      by (cases "shuffle [1, 2, 3, 4, 5, 6, 7, 8, 9 :: int] g")
    from res 1(1) fe sh have lp: "fillFrom board row col numbers g1 = Inr (False, b', g')"
      by (simp add: fillBoard.psimps)
    from 1(2)[OF fe refl sh[symmetric]] lp
    have "cellsWhere isNull b' \<subseteq> insert (row, col) (cellsWhere isNull board)" by blast
    with firstNull_cellsWhere[OF fe]
    show "cellsWhere isNull b' \<subseteq> cellsWhere isNull board" by auto
  qed
next
  case (2 board row col g)
  then show ?case by (auto simp: fillFrom.psimps)
next
  case (3 board row col num numbers g)
  show ?case
  proof (intro allI impI)
    fix b' g' assume res: "fillFrom board row col (num # numbers) g = Inr (False, b', g')"
    from res 3(1) obtain ok where iv: "isValid board row col num = Inr ok"
      by (auto simp: fillFrom.psimps split: sum.splits)
    show "cellsWhere isNull b' \<subseteq> insert (row, col) (cellsWhere isNull board)"
    proof (cases ok)
      case False
      with res 3(1) iv have "fillFrom board row col numbers g = Inr (False, b', g')"
        by (simp add: fillFrom.psimps)
      moreover from False have "ok = False" by simp
      ultimately show ?thesis using 3(4)[OF iv] by blast
    next
      case True
      with res 3(1) iv obtain b1 b2 b3 g2 where
        w1: "wr board row col (Num num) = Inr b1" and
        s: "fillBoard b1 g = Inr (False, b2, g2)" and
        w2: "wr b2 row col Null = Inr b3" and
        r: "fillFrom b3 row col numbers g2 = Inr (False, b', g')"
        by (auto simp: fillFrom.psimps split: sum.splits bool.splits prod.splits)
      from True have okT: "ok = True" by simp
      from 3(2)[OF iv okT w1] s
      have "cellsWhere isNull b2 \<subseteq> cellsWhere isNull b1" by blast
      moreover from 3(3)[OF iv okT w1 s refl refl refl w2] r
      have "cellsWhere isNull b' \<subseteq> insert (row, col) (cellsWhere isNull b3)" by blast
      moreover have "cellsWhere isNull b1 - {(row, col)} = cellsWhere isNull board - {(row, col)}"
        by (rule wr_cellsWhere_other[OF w1]) simp
      moreover have "cellsWhere isNull b3 - {(row, col)} = cellsWhere isNull b2 - {(row, col)}"
        by (rule wr_cellsWhere_other[OF w2]) simp
      ultimately show ?thesis by blast
    qed
  qed
qed

termination fillBoard
proof (relation "inv_image (less_than <*lex*> less_than) (\<lambda>x. case x of
          Inl (b, g) \<Rightarrow> (2 * card (cellsWhere isNull b), 0)
        | Inr (b, r, c, ns, g) \<Rightarrow> (2 * card (cellsWhere isNull b - {(r, c)}) + 1, length ns))",
    goal_cases)
  case 1
  show ?case by (intro wf_inv_image wf_lex_prod wf_less_than)
next
  case (2 board g x2 x y xa ya)
  then have "(x, y) \<in> cellsWhere isNull board" using firstNull_cellsWhere by auto
  then have "card (cellsWhere isNull board - {(x, y)}) < card (cellsWhere isNull board)"
    by (rule card_Diff1_less[OF finite_cellsWhere])
  then show ?case by simp
next
  case (3 board row col num numbers g b ba)
  have "cellsWhere isNull ba = cellsWhere isNull board - {(row, col)}"
    by (rule wr_cellsWhere_filled[OF 3(3)]) simp_all
  then show ?case by simp
next
  case (4 board row col num numbers g b ba bb x y xa ya bc)
  then have "cellsWhere isNull xa \<subseteq> cellsWhere isNull ba"
    using fillBoard_partial_frame(1) by blast
  moreover have "cellsWhere isNull ba - {(row, col)} = cellsWhere isNull board - {(row, col)}"
    by (rule wr_cellsWhere_other[OF 4(3)]) simp
  moreover have "cellsWhere isNull bc - {(row, col)} = cellsWhere isNull xa - {(row, col)}"
    by (rule wr_cellsWhere_other[OF 4(8)]) simp
  ultimately have "cellsWhere isNull bc - {(row, col)} \<subseteq> cellsWhere isNull board - {(row, col)}"
    by blast
  then have "card (cellsWhere isNull bc - {(row, col)}) \<le> card (cellsWhere isNull board - {(row, col)})"
    by (simp add: card_mono finite_cellsWhere)
  then show ?case by auto
next
  case (5 board row col num numbers g b)
  then show ?case by simp
qed

declare fillBoard.simps [simp del] fillFrom.simps [simp del]

lemma countSolutions_partial_frame:
  "countSolutions_countFrom_dom (Inl (b, l)) \<Longrightarrow>
     (\<forall>k b'. countSolutions b l = Inr (k, b') \<longrightarrow>
        cellsWhere isNull b' \<subseteq> cellsWhere isNull b)"
  "countSolutions_countFrom_dom (Inr (b, l, r, c, n, ct)) \<Longrightarrow>
     (\<forall>k b'. countFrom b l r c n ct = Inr (k, b') \<longrightarrow>
        cellsWhere isNull b' \<subseteq> insert (r, c) (cellsWhere isNull b))"
proof (induction b l and b l r c n ct rule: countSolutions_countFrom.pinduct)
  case (1 board limit)
  show ?case
  proof (intro allI impI)
    fix k b' assume res: "countSolutions board limit = Inr (k, b')"
    show "cellsWhere isNull b' \<subseteq> cellsWhere isNull board"
    proof (cases "firstNull board")
      case None
      with res 1(1) show ?thesis by (auto simp: countSolutions.psimps)
    next
      case (Some pos)
      obtain row col where "pos = (row, col)" by (cases pos)
      with Some have fe: "firstNull board = Some (row, col)" by simp
      from res 1(1) fe have lp: "countFrom board limit row col 1 0 = Inr (k, b')"
        by (simp add: countSolutions.psimps)
      from 1(2)[OF fe refl] lp
      have "cellsWhere isNull b' \<subseteq> insert (row, col) (cellsWhere isNull board)" by blast
      with firstNull_cellsWhere[OF fe] show ?thesis by auto
    qed
  qed
next
  case (2 board limit row col num count)
  show ?case
  proof (intro allI impI)
    fix k b' assume res: "countFrom board limit row col num count = Inr (k, b')"
    show "cellsWhere isNull b' \<subseteq> insert (row, col) (cellsWhere isNull board)"
    proof (cases "9 < num")
      case True
      with res 2(1) show ?thesis by (auto simp: countFrom.psimps)
    next
      case le: False
      then obtain ok where iv: "isValid board row col (int num) = Inr ok"
        using res 2(1) by (auto simp: countFrom.psimps split: sum.splits)
      show ?thesis
      proof (cases ok)
        case False
        with res 2(1) le iv have "countFrom board limit row col (num + 1) count = Inr (k, b')"
          by (simp add: countFrom.psimps)
        moreover from False have "ok = False" by simp
        ultimately show ?thesis using 2(4)[OF le iv] by blast
      next
        case True
        then have okT: "ok = True" by simp
        from res 2(1) le iv okT obtain b1 where w1: "wr board row col (Num (int num)) = Inr b1"
          by (auto simp: countFrom.psimps split: sum.splits)
        from res 2(1) le iv okT w1 obtain k1 b2 where s: "countSolutions b1 limit = Inr (k1, b2)"
          by (auto simp: countFrom.psimps split: sum.splits)
        from res 2(1) le iv okT w1 s obtain b3 where w2: "wr b2 row col Null = Inr b3"
          by (auto simp: countFrom.psimps split: sum.splits)
        from 2(2)[OF le iv okT w1] s
        have f2: "cellsWhere isNull b2 \<subseteq> cellsWhere isNull b1" by blast
        have f1: "cellsWhere isNull b1 - {(row, col)} = cellsWhere isNull board - {(row, col)}"
          by (rule wr_cellsWhere_other[OF w1]) simp
        have f3: "cellsWhere isNull b3 - {(row, col)} = cellsWhere isNull b2 - {(row, col)}"
          by (rule wr_cellsWhere_other[OF w2]) simp
        show ?thesis
        proof (cases "limit \<le> count + k1")
          case True
          with res 2(1) le iv okT w1 s w2 have "b' = b3"
            by (simp add: countFrom.psimps)
          with f1 f2 f3 show ?thesis by blast
        next
          case False
          with res 2(1) le iv okT w1 s w2
          have "countFrom b3 limit row col (num + 1) (count + k1) = Inr (k, b')"
            by (simp add: countFrom.psimps)
          with 2(3)[OF le iv okT w1 s refl w2 False]
          have "cellsWhere isNull b' \<subseteq> insert (row, col) (cellsWhere isNull b3)" by blast
          with f1 f2 f3 show ?thesis by blast
        qed
      qed
    qed
  qed
qed

termination countSolutions
proof (relation "inv_image (less_than <*lex*> less_than) (\<lambda>x. case x of
          Inl (b, l) \<Rightarrow> (2 * card (cellsWhere isNull b), 0)
        | Inr (b, l, r, c, n, ct) \<Rightarrow> (2 * card (cellsWhere isNull b - {(r, c)}) + 1, 10 - n))",
    goal_cases)
  case 1
  show ?case by (intro wf_inv_image wf_lex_prod wf_less_than)
next
  case (2 board limit x2 x y)
  then have "(x, y) \<in> cellsWhere isNull board" using firstNull_cellsWhere by auto
  then have "card (cellsWhere isNull board - {(x, y)}) < card (cellsWhere isNull board)"
    by (rule card_Diff1_less[OF finite_cellsWhere])
  then show ?case by simp
next
  case (3 board limit row col num count b ba)
  have "cellsWhere isNull ba = cellsWhere isNull board - {(row, col)}"
    by (rule wr_cellsWhere_filled[OF 3(4)]) simp_all
  then show ?case by simp
next
  case (4 board limit row col num count b ba bb x y bc)
  then have "cellsWhere isNull y \<subseteq> cellsWhere isNull ba"
    using countSolutions_partial_frame(1) by blast
  moreover have "cellsWhere isNull ba - {(row, col)} = cellsWhere isNull board - {(row, col)}"
    by (rule wr_cellsWhere_other[OF 4(4)]) simp
  moreover have "cellsWhere isNull bc - {(row, col)} = cellsWhere isNull y - {(row, col)}"
    by (rule wr_cellsWhere_other[OF 4(7)]) simp
  ultimately have "cellsWhere isNull bc - {(row, col)} \<subseteq> cellsWhere isNull board - {(row, col)}"
    by blast
  then have "card (cellsWhere isNull bc - {(row, col)}) \<le> card (cellsWhere isNull board - {(row, col)})"
    by (simp add: card_mono finite_cellsWhere)
  then show ?case using 4(1) by auto
next
  case (5 board limit row col num count b)
  then show ?case by auto
qed

declare countSolutions.simps [simp del] countFrom.simps [simp del]

section \<open>Grids, completions and the boards of the generator\<close>

text \<open>
  \<open>validGrid s\<close>: a full valid Sudoku solution, every cell holding a digit from 1 to 9
  that no other cell of its row, column or box holds. \<open>completes s b\<close>: \<open>s\<close> is such a
  grid and agrees with \<open>b\<close> on every cell of \<open>b\<close> that is not \<open>null\<close>. \<open>clean b\<close>: every
  cell of \<open>b\<close> is \<open>null\<close> or a digit from 1 to 9. \<open>consistent b\<close>: no filled cell
  of \<open>b\<close> has its value in another cell of its row, column or box.
\<close>

definition validGrid :: "board \<Rightarrow> bool" where
  "validGrid s \<longleftrightarrow> shape9 s \<and> (\<forall>i<9. \<forall>j<9. placedOk s i j)"

definition completes :: "board \<Rightarrow> board \<Rightarrow> bool" where
  "completes s b \<longleftrightarrow>
     validGrid s \<and> (\<forall>i<9. \<forall>j<9. b ! i ! j \<noteq> Null \<longrightarrow> s ! i ! j = b ! i ! j)"

definition clean :: "board \<Rightarrow> bool" where
  "clean b \<longleftrightarrow> (\<forall>i<9. \<forall>j<9. b ! i ! j = Null \<or> (\<exists>d. 1 \<le> d \<and> d \<le> 9 \<and> b ! i ! j = Num d))"

definition consistent :: "board \<Rightarrow> bool" where
  "consistent b \<longleftrightarrow>
     (\<forall>i<9. \<forall>j<9. b ! i ! j \<noteq> Null \<longrightarrow>
        (\<forall>p q. inUnit i j p q \<and> (p, q) \<noteq> (i, j) \<longrightarrow> b ! p ! q \<noteq> b ! i ! j))"

lemma clean_empty: "clean b \<Longrightarrow> i < 9 \<Longrightarrow> j < 9 \<Longrightarrow> isEmptyCell (b ! i ! j) \<longleftrightarrow> b ! i ! j = Null"
  unfolding clean_def isEmptyCell_def by force

lemma firstNull_shape9_Some:
  assumes "shape9 b" and "firstNull b = Some (i, j)"
  shows "i < 9 \<and> j < 9 \<and> b ! i ! j = Null"
proof -
  from firstNull_Some[OF assms(2)] have i: "i < length b" and j: "j < length (b ! i)"
    and v: "b ! i ! j = Null" by simp_all
  from i assms(1) have i9: "i < 9" by (simp add: shape9_length)
  with j assms(1) have "j < 9" by (simp add: shape9_row)
  with i9 v show ?thesis by simp
qed

lemma firstNull_shape9_None:
  assumes "shape9 b" and "firstNull b = None" and "i < 9" and "j < 9"
  shows "b ! i ! j \<noteq> Null"
  by (rule firstNull_None[OF assms(2)]) (use assms in \<open>simp_all add: shape9_length shape9_row\<close>)

lemma shuffleFrom_set:
  "i < length xs \<Longrightarrow> set (fst (shuffleFrom i xs g)) = set xs \<and> length (fst (shuffleFrom i xs g)) = length xs"
proof (induction i arbitrary: xs g)
  case 0
  then show ?case by simp
next
  case (Suc i)
  define j where "j = g 0 mod (Suc i + 1)"
  have "j < Suc i + 1" unfolding j_def by (rule mod_less_divisor) simp
  with Suc.prems have j: "j < length xs" by simp
  define ys where "ys = xs[Suc i := xs ! j, j := xs ! Suc i]"
  have len: "length ys = length xs" by (simp add: ys_def)
  have "set ys = set xs" unfolding ys_def using Suc.prems j by (rule set_swap)
  moreover from Suc.prems len have "i < length ys" by simp
  from Suc.IH[OF this, of "\<lambda>n. g (Suc n)"]
  have "set (fst (shuffleFrom i ys (\<lambda>n. g (Suc n)))) = set ys
      \<and> length (fst (shuffleFrom i ys (\<lambda>n. g (Suc n)))) = length ys" .
  moreover have "shuffleFrom (Suc i) xs g = shuffleFrom i ys (\<lambda>n. g (Suc n))"
    by (simp add: randomBelow_def ys_def j_def)
  ultimately show ?case using len by simp
qed

lemma shuffle_set: "set (fst (shuffle xs g)) = set xs"
proof (cases xs)
  case Nil
  then show ?thesis by (simp add: shuffle_def)
next
  case (Cons x rest)
  then have "length xs - 1 < length xs" by simp
  from shuffleFrom_set[OF this] show ?thesis by (simp add: shuffle_def)
qed

lemma solvedFrom_clean:
  assumes "clean b" and "solvedFrom b b'"
  shows "clean b'"
  unfolding clean_def
proof (intro allI impI)
  fix i j :: nat assume i: "i < 9" and j: "j < 9"
  show "b' ! i ! j = Null \<or> (\<exists>d. 1 \<le> d \<and> d \<le> 9 \<and> b' ! i ! j = Num d)"
  proof (cases "isEmptyCell (b ! i ! j)")
    case True
    with assms(2) i j have "placedOk b' i j" by (simp add: solvedFrom_def)
    then show ?thesis unfolding placedOk_def by blast
  next
    case False
    with assms(2) i j have "b' ! i ! j = b ! i ! j" by (simp add: solvedFrom_def)
    with assms(1) i j show ?thesis by (simp add: clean_def)
  qed
qed

lemma clean_put:
  assumes "shape9 b" and "clean b" and "r < 9" and "c < 9"
    and "v = Null \<or> (\<exists>d. 1 \<le> d \<and> d \<le> 9 \<and> v = Num d)"
  shows "clean (put b r c v)"
  unfolding clean_def
proof (intro allI impI)
  fix i j :: nat assume i: "i < 9" and j: "j < 9"
  from assms(2) i j have "b ! i ! j = Null \<or> (\<exists>d. 1 \<le> d \<and> d \<le> 9 \<and> b ! i ! j = Num d)"
    by (simp add: clean_def)
  with assms(5) show "put b r c v ! i ! j = Null \<or> (\<exists>d. 1 \<le> d \<and> d \<le> 9 \<and> put b r c v ! i ! j = Num d)"
    by (simp add: nth_put[OF assms(1,3,4) i j])
qed

definition fillOutcome :: "board \<Rightarrow> bool \<Rightarrow> board \<Rightarrow> bool" where
  "fillOutcome b ok b' \<longleftrightarrow> shape9 b' \<and> clean b' \<and> (if ok then solvedFrom b b' else b' = b)"

lemma fillBoard_outcome:
  "shape9 b \<Longrightarrow> clean b \<Longrightarrow> \<exists>ok b' g'. fillBoard b g = Inr (ok, b', g') \<and> fillOutcome b ok b'"
  "shape9 b \<Longrightarrow> clean b \<Longrightarrow> r < 9 \<Longrightarrow> c < 9 \<Longrightarrow> b ! r ! c = Null \<Longrightarrow>
     \<forall>n \<in> set ns. 1 \<le> n \<and> n \<le> 9 \<Longrightarrow>
     \<exists>ok b' g'. fillFrom b r c ns g = Inr (ok, b', g') \<and> fillOutcome b ok b'"
proof (induction b g and b r c ns g rule: fillBoard_fillFrom.induct)
  case (1 board g)
  note s = \<open>shape9 board\<close> and cl = \<open>clean board\<close>
  show ?case
  proof (cases "firstNull board")
    case None
    have "\<not> isEmptyCell (board ! i ! j)" if "i < 9" "j < 9" for i j
      using firstNull_shape9_None[OF s None that] clean_empty[OF cl that] by simp
    then have "solvedFrom board board" by (simp add: solvedFrom_def)
    with s cl have "fillOutcome board True board" by (simp add: fillOutcome_def)
    moreover from None have "fillBoard board g = Inr (True, board, g)"
      by (subst fillBoard.simps) simp
    ultimately show ?thesis by blast
  next
    case (Some pos)
    obtain row col where "pos = (row, col)" by (cases pos)
    with Some have fe: "firstNull board = Some (row, col)" by simp
    from firstNull_shape9_Some[OF s fe] have rc: "row < 9" "col < 9" "board ! row ! col = Null"
      by simp_all
    obtain numbers g1 where sh: "shuffle [1, 2, 3, 4, 5, 6, 7, 8, 9 :: int] g = (numbers, g1)"
      by (cases "shuffle [1, 2, 3, 4, 5, 6, 7, 8, 9 :: int] g")
    from shuffle_set[of "[1, 2, 3, 4, 5, 6, 7, 8, 9 :: int]" g] sh
    have "set numbers = {1, 2, 3, 4, 5, 6, 7, 8, 9}" by simp
    then have range: "\<forall>n \<in> set numbers. 1 \<le> n \<and> n \<le> 9" by auto
    have "fillBoard board g = fillFrom board row col numbers g1"
      by (subst fillBoard.simps) (simp add: fe sh)
    with "1.IH"[OF fe refl sh[symmetric] s cl rc range] show ?thesis by simp
  qed
next
  case (2 board row col g)
  then have "fillOutcome board False board" by (simp add: fillOutcome_def)
  moreover have "fillFrom board row col [] g = Inr (False, board, g)"
    by (subst fillFrom.simps) simp
  ultimately show ?case by blast
next
  case (3 board row col num numbers g)
  note s = \<open>shape9 board\<close> and cl = \<open>clean board\<close> and r = \<open>row < 9\<close> and c = \<open>col < 9\<close>
    and e = \<open>board ! row ! col = Null\<close>
  from "3.prems"(6) have n: "1 \<le> num" "num \<le> 9" and range: "\<forall>n \<in> set numbers. 1 \<le> n \<and> n \<le> 9"
    by simp_all
  obtain v where iv: "isValid board row col num = Inr v"
    and v: "v \<longleftrightarrow> \<not> (\<exists>i j. inUnit row col i j \<and> board ! i ! j = Num num)"
    using isValid_shape9[OF s r c] by blast
  show ?case
  proof (cases v)
    case False
    then have vF: "v = False" by simp
    have "fillFrom board row col (num # numbers) g = fillFrom board row col numbers g"
      by (subst fillFrom.simps) (simp add: iv vF)
    with "3.IH"(3)[OF iv vF s cl r c e range] show ?thesis by simp
  next
    case True
    then have vT: "v = True" by simp
    let ?b1 = "put board row col (Num num)"
    have w1: "wr board row col (Num num) = Inr ?b1" by (rule wr_shape9[OF s r c])
    have s1: "shape9 ?b1" by (rule shape9_put[OF s])
    have cl1: "clean ?b1" by (rule clean_put[OF s cl r c]) (use n in blast)
    from "3.IH"(1)[OF iv vT w1 s1 cl1] obtain ok1 b2 g2 where
      sol: "fillBoard ?b1 g = Inr (ok1, b2, g2)" and out: "fillOutcome ?b1 ok1 b2"
      by blast
    show ?thesis
    proof (cases ok1)
      case ok: True
      with out have s2: "shape9 b2" and cl2: "clean b2" and sf: "solvedFrom ?b1 b2"
        by (simp_all add: fillOutcome_def)
      from e have e': "isEmptyCell (board ! row ! col)" by simp
      from step_success[OF s r c e' n _ sf] v True have "solvedFrom board b2" by simp
      with s2 cl2 have "fillOutcome board True b2" by (simp add: fillOutcome_def)
      moreover have "fillFrom board row col (num # numbers) g = Inr (True, b2, g2)"
        by (subst fillFrom.simps) (simp add: iv vT w1 sol ok)
      ultimately show ?thesis by blast
    next
      case nok: False
      with out have b2: "b2 = ?b1" by (simp add: fillOutcome_def)
      from nok sol b2 have sol': "fillBoard ?b1 g = Inr (False, ?b1, g2)" by simp
      have b3: "put ?b1 row col Null = board"
        using put_same[OF s r c, of "Num num"] e by simp
      have w2: "wr ?b1 row col Null = Inr board"
        using wr_shape9[OF s1 r c, of Null] b3 by simp
      from "3.IH"(2)[OF iv vT w1 sol' refl refl refl w2 s cl r c e range] obtain ok b' g' where
        rest: "fillFrom board row col numbers g2 = Inr (ok, b', g')" and out3: "fillOutcome board ok b'"
        by blast
      have "fillFrom board row col (num # numbers) g = Inr (ok, b', g')"
        by (subst fillFrom.simps) (simp add: iv vT w1 sol' w2 rest)
      with out3 show ?thesis by blast
    qed
  qed
qed

lemma completes_digit:
  assumes "completes s b" and "r < 9" and "c < 9"
  shows "\<exists>d. 1 \<le> d \<and> d \<le> 9 \<and> s ! r ! c = Num d"
proof -
  from assms have "placedOk s r c" by (simp add: completes_def validGrid_def)
  then show ?thesis unfolding placedOk_def by blast
qed

lemma completes_conflict:
  assumes cs: "completes s b" and r: "r < 9" and c: "c < 9" and e: "b ! r ! c = Null"
    and u: "inUnit r c i j" and v: "b ! i ! j = Num n"
  shows "s ! r ! c \<noteq> Num n"
proof
  assume eq: "s ! r ! c = Num n"
  from u have ij: "i < 9" "j < 9" by (simp_all add: inUnit_def)
  from e v have ne: "(i, j) \<noteq> (r, c)" by auto
  from cs ij v have sij: "s ! i ! j = Num n" by (simp add: completes_def)
  from cs r c have "placedOk s r c" by (simp add: completes_def validGrid_def)
  with eq have "\<forall>p q. inUnit r c p q \<and> (p, q) \<noteq> (r, c) \<longrightarrow> s ! p ! q \<noteq> Num n"
    unfolding placedOk_def by auto
  with u ne sij show False by blast
qed

lemma completes_put:
  assumes s: "shape9 b" and r: "r < 9" and c: "c < 9" and cs: "completes s b"
    and v: "s ! r ! c = v"
  shows "completes s (put b r c v)"
  unfolding completes_def
proof (intro conjI allI impI)
  from cs show "validGrid s" by (simp add: completes_def)
next
  fix i j :: nat assume ij: "i < 9" "j < 9" and ne: "put b r c v ! i ! j \<noteq> Null"
  show "s ! i ! j = put b r c v ! i ! j"
  proof (cases "i = r \<and> j = c")
    case True
    with v show ?thesis by (simp add: nth_put[OF s r c r c])
  next
    case False
    with nth_put[OF s r c ij, of v] have eq: "put b r c v ! i ! j = b ! i ! j" by auto
    with ne have "b ! i ! j \<noteq> Null" by simp
    with cs ij have "s ! i ! j = b ! i ! j" by (simp add: completes_def)
    with eq show ?thesis by simp
  qed
qed

text \<open>
  The search of \<open>fillBoard\<close> is complete: on a board that has a completion it returns
  true, whatever the order in which the digits are tried.
\<close>

lemma fillBoard_complete:
  "shape9 b \<Longrightarrow> clean b \<Longrightarrow> completes s b \<Longrightarrow> \<exists>b' g'. fillBoard b g = Inr (True, b', g')"
  "shape9 b \<Longrightarrow> clean b \<Longrightarrow> completes s b \<Longrightarrow> r < 9 \<Longrightarrow> c < 9 \<Longrightarrow> b ! r ! c = Null \<Longrightarrow>
     \<forall>n \<in> set ns. 1 \<le> n \<and> n \<le> 9 \<Longrightarrow> \<exists>d \<in> set ns. s ! r ! c = Num d \<Longrightarrow>
     \<exists>b' g'. fillFrom b r c ns g = Inr (True, b', g')"
proof (induction b g and b r c ns g rule: fillBoard_fillFrom.induct)
  case (1 board g)
  note s = \<open>shape9 board\<close> and cl = \<open>clean board\<close> and cs = \<open>completes s board\<close>
  show ?case
  proof (cases "firstNull board")
    case None
    then have "fillBoard board g = Inr (True, board, g)"
      by (subst fillBoard.simps) simp
    then show ?thesis by blast
  next
    case (Some pos)
    obtain row col where "pos = (row, col)" by (cases pos)
    with Some have fe: "firstNull board = Some (row, col)" by simp
    from firstNull_shape9_Some[OF s fe] have rc: "row < 9" "col < 9" "board ! row ! col = Null"
      by simp_all
    obtain numbers g1 where sh: "shuffle [1, 2, 3, 4, 5, 6, 7, 8, 9 :: int] g = (numbers, g1)"
      by (cases "shuffle [1, 2, 3, 4, 5, 6, 7, 8, 9 :: int] g")
    from shuffle_set[of "[1, 2, 3, 4, 5, 6, 7, 8, 9 :: int]" g] sh
    have sn: "set numbers = {1, 2, 3, 4, 5, 6, 7, 8, 9}" by simp
    then have range: "\<forall>n \<in> set numbers. 1 \<le> n \<and> n \<le> 9" by auto
    from completes_digit[OF cs rc(1,2)] obtain d where d: "1 \<le> d" "d \<le> 9" "s ! row ! col = Num d"
      by blast
    from d(1,2) have "d \<in> {1, 2, 3, 4, 5, 6, 7, 8, 9}" by auto
    with sn d(3) have ex: "\<exists>d \<in> set numbers. s ! row ! col = Num d" by blast
    have "fillBoard board g = fillFrom board row col numbers g1"
      by (subst fillBoard.simps) (simp add: fe sh)
    with "1.IH"[OF fe refl sh[symmetric] s cl cs rc range ex] show ?thesis by simp
  qed
next
  case (2 board row col g)
  then show ?case by simp
next
  case (3 board row col num numbers g)
  note s = \<open>shape9 board\<close> and cl = \<open>clean board\<close> and cs = \<open>completes s board\<close>
    and r = \<open>row < 9\<close> and c = \<open>col < 9\<close> and e = \<open>board ! row ! col = Null\<close>
  from "3.prems"(7) have n: "1 \<le> num" "num \<le> 9" and range: "\<forall>n \<in> set numbers. 1 \<le> n \<and> n \<le> 9"
    by simp_all
  from "3.prems"(8) have ex: "s ! row ! col = Num num \<or> (\<exists>d \<in> set numbers. s ! row ! col = Num d)"
    by auto
  obtain v where iv: "isValid board row col num = Inr v"
    and v: "v \<longleftrightarrow> \<not> (\<exists>i j. inUnit row col i j \<and> board ! i ! j = Num num)"
    using isValid_shape9[OF s r c] by blast
  show ?case
  proof (cases v)
    case False
    then have vF: "v = False" by simp
    from False v obtain i j where "inUnit row col i j" "board ! i ! j = Num num" by blast
    from completes_conflict[OF cs r c e this] ex
    have ex': "\<exists>d \<in> set numbers. s ! row ! col = Num d" by simp
    have "fillFrom board row col (num # numbers) g = fillFrom board row col numbers g"
      by (subst fillFrom.simps) (simp add: iv vF)
    with "3.IH"(3)[OF iv vF s cl cs r c e range ex'] show ?thesis by simp
  next
    case True
    then have vT: "v = True" by simp
    let ?b1 = "put board row col (Num num)"
    have w1: "wr board row col (Num num) = Inr ?b1" by (rule wr_shape9[OF s r c])
    have s1: "shape9 ?b1" by (rule shape9_put[OF s])
    have cl1: "clean ?b1" by (rule clean_put[OF s cl r c]) (use n in blast)
    from fillBoard_outcome(1)[OF s1 cl1, of g] obtain ok1 b2 g2 where
      sol: "fillBoard ?b1 g = Inr (ok1, b2, g2)" and out: "fillOutcome ?b1 ok1 b2"
      by blast
    show ?thesis
    proof (cases ok1)
      case ok: True
      have "fillFrom board row col (num # numbers) g = Inr (True, b2, g2)"
        by (subst fillFrom.simps) (simp add: iv vT w1 sol ok)
      then show ?thesis by blast
    next
      case nok: False
      with out have b2: "b2 = ?b1" by (simp add: fillOutcome_def)
      from nok sol b2 have sol': "fillBoard ?b1 g = Inr (False, ?b1, g2)" by simp
      have ne: "s ! row ! col \<noteq> Num num"
      proof
        assume "s ! row ! col = Num num"
        from completes_put[OF s r c cs this] have "completes s ?b1" .
        from "3.IH"(1)[OF iv vT w1 s1 cl1 this] sol' show False by simp
      qed
      with ex have ex': "\<exists>d \<in> set numbers. s ! row ! col = Num d" by simp
      have b3: "put ?b1 row col Null = board"
        using put_same[OF s r c, of "Num num"] e by simp
      have w2: "wr ?b1 row col Null = Inr board"
        using wr_shape9[OF s1 r c, of Null] b3 by simp
      from "3.IH"(2)[OF iv vT w1 sol' refl refl refl w2 s cl cs r c e range ex'] obtain b' g' where
        rest: "fillFrom board row col numbers g2 = Inr (True, b', g')"
        by blast
      have "fillFrom board row col (num # numbers) g = Inr (True, b', g')"
        by (subst fillFrom.simps) (simp add: iv vT w1 sol' w2 rest)
      then show ?thesis by blast
    qed
  qed
qed

lemma shape9_createEmptyBoard: "shape9 createEmptyBoard"
  by (simp add: shape9_iff createEmptyBoard_def)

lemma nth_createEmptyBoard: "i < 9 \<Longrightarrow> j < 9 \<Longrightarrow> createEmptyBoard ! i ! j = Null"
  by (simp add: createEmptyBoard_def)

lemma clean_createEmptyBoard: "clean createEmptyBoard"
  by (simp add: clean_def nth_createEmptyBoard)

lemma validGrid_solvedExample: "validGrid solvedExample"
proof -
  have s: "shape9 solvedExample" by code_simp
  have "list_all (\<lambda>(i, j). recheck solvedExample i j = Inr True
            \<and> (case solvedExample ! i ! j of Num d \<Rightarrow> 1 \<le> d \<and> d \<le> 9 | _ \<Rightarrow> False)) allCells"
    by code_simp
  then have all: "\<forall>i<9. \<forall>j<9. recheck solvedExample i j = Inr True
            \<and> (case solvedExample ! i ! j of Num d \<Rightarrow> 1 \<le> d \<and> d \<le> 9 | _ \<Rightarrow> False)"
    by (simp only: all_cells_iff)
  have "placedOk solvedExample i j" if ij: "i < 9" "j < 9" for i j
  proof -
    from all ij have a: "recheck solvedExample i j = Inr True"
      and b: "case solvedExample ! i ! j of Num d \<Rightarrow> 1 \<le> d \<and> d \<le> 9 | _ \<Rightarrow> False"
      by simp_all
    from a obtain d where d: "solvedExample ! i ! j = Num d"
      "\<forall>p q. inUnit i j p q \<and> (p, q) \<noteq> (i, j) \<longrightarrow> solvedExample ! p ! q \<noteq> Num d"
      unfolding recheck_shape9[OF s ij] by blast
    with b show ?thesis unfolding placedOk_def by auto
  qed
  with s show ?thesis by (simp add: validGrid_def)
qed

text \<open>
  On the empty board \<open>fillBoard\<close> returns true and leaves a full valid grid, whatever the
  random choices.
\<close>

lemma fillBoard_createEmptyBoard:
  "\<exists>b' g'. fillBoard createEmptyBoard g = Inr (True, b', g') \<and> validGrid b'"
proof -
  have "completes solvedExample createEmptyBoard"
    by (simp add: completes_def validGrid_solvedExample nth_createEmptyBoard)
  from fillBoard_complete(1)[OF shape9_createEmptyBoard clean_createEmptyBoard this, of g]
  obtain b' g' where res: "fillBoard createEmptyBoard g = Inr (True, b', g')" by blast
  from fillBoard_outcome(1)[OF shape9_createEmptyBoard clean_createEmptyBoard, of g] res
  have out: "fillOutcome createEmptyBoard True b'" by auto
  then have "shape9 b'" and sf: "solvedFrom createEmptyBoard b'" by (simp_all add: fillOutcome_def)
  moreover have "placedOk b' i j" if "i < 9" "j < 9" for i j
    using sf that by (simp add: solvedFrom_def nth_createEmptyBoard)
  ultimately have "validGrid b'" by (simp add: validGrid_def)
  with res show ?thesis by blast
qed

section \<open>What countSolutions counts\<close>

text \<open>
  \<open>counts k S\<close>: the number \<open>k\<close> tells how many elements \<open>S\<close> has, as far as a count
  that stops at two can tell: 0 for none, 1 for exactly one, 2 or more for at least two.
  \<open>solsBelow b r c n\<close> are the completions of \<open>b\<close> whose digit at \<open>(r, c)\<close> is below
  \<open>n\<close>.
\<close>

definition counts :: "nat \<Rightarrow> board set \<Rightarrow> bool" where
  "counts k S \<longleftrightarrow>
     (k = 0 \<and> S = {}) \<or> (k = 1 \<and> (\<exists>s. S = {s})) \<or> (2 \<le> k \<and> (\<exists>s t. s \<noteq> t \<and> s \<in> S \<and> t \<in> S))"

definition solsBelow :: "board \<Rightarrow> nat \<Rightarrow> nat \<Rightarrow> nat \<Rightarrow> board set" where
  "solsBelow b r c n = {s. completes s b \<and> (\<exists>d. d < int n \<and> s ! r ! c = Num d)}"

lemma counts_union:
  assumes "counts k S" and "counts l T" and "S \<inter> T = {}"
  shows "counts (k + l) (S \<union> T)"
proof -
  consider "k = 0" "S = {}" | s where "k = 1" "S = {s}"
    | s t where "2 \<le> k" "s \<noteq> t" "s \<in> S" "t \<in> S"
    using assms(1) unfolding counts_def by blast
  then show ?thesis
  proof cases
    case 1
    with assms(2) show ?thesis by simp
  next
    case 2
    consider "l = 0" "T = {}" | t where "l = 1" "T = {t}"
      | t u where "2 \<le> l" "t \<noteq> u" "t \<in> T" "u \<in> T"
      using assms(2) unfolding counts_def by blast
    then show ?thesis
    proof cases
      case 1
      with assms(1) show ?thesis by simp
    next
      case 2
      with \<open>S = {s}\<close> assms(3) have "s \<noteq> t" by auto
      moreover from 2 \<open>k = 1\<close> have "2 \<le> k + l" by simp
      moreover from 2 \<open>S = {s}\<close> have "s \<in> S \<union> T" "t \<in> S \<union> T" by simp_all
      ultimately show ?thesis unfolding counts_def by blast
    next
      case 3
      then have "2 \<le> k + l" "t \<in> S \<union> T" "u \<in> S \<union> T" by simp_all
      with 3(2) show ?thesis unfolding counts_def by blast
    qed
  next
    case 3
    then have "2 \<le> k + l" "s \<in> S \<union> T" "t \<in> S \<union> T" by simp_all
    with 3(2) show ?thesis unfolding counts_def by blast
  qed
qed

lemma counts_mono:
  assumes "counts k S" and "2 \<le> k" and "S \<subseteq> T"
  shows "counts k T"
  using assms unfolding counts_def by auto

lemma consistent_put_digit:
  assumes s: "shape9 b" and r: "r < 9" and c: "c < 9" and e: "b ! r ! c = Null"
    and co: "consistent b" and v: "\<not> (\<exists>i j. inUnit r c i j \<and> b ! i ! j = Num n)"
  shows "consistent (put b r c (Num n))"
  unfolding consistent_def
proof (intro allI impI)
  fix i j p q :: nat
  assume i: "i < 9" and j: "j < 9" and ne: "put b r c (Num n) ! i ! j \<noteq> Null"
    and u: "inUnit i j p q \<and> (p, q) \<noteq> (i, j)"
  from u have p: "p < 9" and q: "q < 9" by (simp_all add: inUnit_def)
  note ij = nth_put[OF s r c i j, of "Num n"]
  note pq = nth_put[OF s r c p q, of "Num n"]
  show "put b r c (Num n) ! p ! q \<noteq> put b r c (Num n) ! i ! j"
  proof (cases "i = r \<and> j = c")
    case True
    with u have "inUnit r c p q" "\<not> (p = r \<and> q = c)" by auto
    with v ij pq True show ?thesis by auto
  next
    case False
    with ne ij have f: "b ! i ! j \<noteq> Null" "put b r c (Num n) ! i ! j = b ! i ! j" by auto
    show ?thesis
    proof (cases "p = r \<and> q = c")
      case True
      with u have "inUnit i j r c" by simp
      from inUnit_sym[OF this i j] v have "b ! i ! j \<noteq> Num n" by blast
      with True pq f show ?thesis by auto
    next
      case False
      with pq have "put b r c (Num n) ! p ! q = b ! p ! q" by auto
      moreover from co i j f(1) u have "b ! p ! q \<noteq> b ! i ! j"
        unfolding consistent_def by blast
      ultimately show ?thesis using f(2) by simp
    qed
  qed
qed

lemma consistent_put_null:
  assumes s: "shape9 b" and r: "r < 9" and c: "c < 9" and co: "consistent b"
  shows "consistent (put b r c Null)"
  unfolding consistent_def
proof (intro allI impI)
  fix i j p q :: nat
  assume i: "i < 9" and j: "j < 9" and ne: "put b r c Null ! i ! j \<noteq> Null"
    and u: "inUnit i j p q \<and> (p, q) \<noteq> (i, j)"
  from u have p: "p < 9" and q: "q < 9" by (simp_all add: inUnit_def)
  note ij = nth_put[OF s r c i j, of Null]
  note pq = nth_put[OF s r c p q, of Null]
  from ne ij have f: "b ! i ! j \<noteq> Null" "put b r c Null ! i ! j = b ! i ! j"
    by (auto split: if_splits)
  show "put b r c Null ! p ! q \<noteq> put b r c Null ! i ! j"
  proof (cases "p = r \<and> q = c")
    case True
    with pq f show ?thesis by auto
  next
    case False
    with pq have "put b r c Null ! p ! q = b ! p ! q" by auto
    moreover from co i j f(1) u have "b ! p ! q \<noteq> b ! i ! j"
      unfolding consistent_def by blast
    ultimately show ?thesis using f(2) by simp
  qed
qed

lemma validGrid_consistent:
  assumes "validGrid s"
  shows "consistent s"
  unfolding consistent_def
proof (intro allI impI)
  fix i j p q :: nat
  assume ij: "i < 9" "j < 9" and u: "inUnit i j p q \<and> (p, q) \<noteq> (i, j)"
  from assms ij have "placedOk s i j" by (simp add: validGrid_def)
  then obtain d where "s ! i ! j = Num d"
    "\<forall>p q. inUnit i j p q \<and> (p, q) \<noteq> (i, j) \<longrightarrow> s ! p ! q \<noteq> Num d"
    unfolding placedOk_def by blast
  with u show "s ! p ! q \<noteq> s ! i ! j" by simp
qed

lemma validGrid_clean:
  assumes "validGrid s"
  shows "clean s"
  unfolding clean_def
proof (intro allI impI)
  fix i j :: nat
  assume ij: "i < 9" "j < 9"
  from assms ij have "placedOk s i j" by (simp add: validGrid_def)
  then show "s ! i ! j = Null \<or> (\<exists>d. 1 \<le> d \<and> d \<le> 9 \<and> s ! i ! j = Num d)"
    unfolding placedOk_def by blast
qed

lemma full_validGrid:
  assumes s: "shape9 b" and cl: "clean b" and co: "consistent b"
    and full: "\<And>i j. i < 9 \<Longrightarrow> j < 9 \<Longrightarrow> b ! i ! j \<noteq> Null"
  shows "validGrid b"
  unfolding validGrid_def
proof (intro conjI allI impI)
  show "shape9 b" by (rule s)
next
  fix i j :: nat assume i: "i < 9" and j: "j < 9"
  from cl i j full[OF i j] obtain d where d: "1 \<le> d" "d \<le> 9" "b ! i ! j = Num d"
    unfolding clean_def by blast
  from co i j full[OF i j]
  have "\<forall>p q. inUnit i j p q \<and> (p, q) \<noteq> (i, j) \<longrightarrow> b ! p ! q \<noteq> b ! i ! j"
    unfolding consistent_def by blast
  with d(3) have "\<forall>p q. inUnit i j p q \<and> (p, q) \<noteq> (i, j) \<longrightarrow> b ! p ! q \<noteq> Num d"
    by simp
  with d show "placedOk b i j" unfolding placedOk_def by blast
qed

lemma full_completions:
  assumes s: "shape9 b" and cl: "clean b" and co: "consistent b"
    and full: "\<And>i j. i < 9 \<Longrightarrow> j < 9 \<Longrightarrow> b ! i ! j \<noteq> Null"
  shows "{s. completes s b} = {b}"
proof (intro set_eqI iffI)
  fix t assume "t \<in> {s. completes s b}"
  then have t: "validGrid t" "\<And>i j. i < 9 \<Longrightarrow> j < 9 \<Longrightarrow> t ! i ! j = b ! i ! j"
    using full by (simp_all add: completes_def)
  from t(1) have "shape9 t" by (simp add: validGrid_def)
  from board_eqI[OF this s t(2)] show "t \<in> {b}" by simp
next
  fix t assume "t \<in> {b}"
  with full_validGrid[OF assms] show "t \<in> {s. completes s b}" by (simp add: completes_def)
qed

lemma solsBelow_all:
  assumes "r < 9" and "c < 9" and "9 < n"
  shows "solsBelow b r c n = {s. completes s b}"
proof -
  have "\<exists>d. d < int n \<and> s ! r ! c = Num d" if "completes s b" for s
  proof -
    from completes_digit[OF that assms(1,2)] obtain d where "d \<le> 9" "s ! r ! c = Num d" by blast
    with assms(3) show ?thesis by auto
  qed
  then show ?thesis unfolding solsBelow_def by blast
qed

lemma solsBelow_none:
  assumes "r < 9" and "c < 9"
  shows "solsBelow b r c 1 = {}"
proof -
  have "\<not> (\<exists>d. d < int 1 \<and> s ! r ! c = Num d)" if "completes s b" for s
  proof -
    from completes_digit[OF that assms] obtain d where "1 \<le> d" "s ! r ! c = Num d" by blast
    then show ?thesis by auto
  qed
  then show ?thesis unfolding solsBelow_def by blast
qed

lemma solsBelow_skip:
  assumes r: "r < 9" and c: "c < 9" and e: "b ! r ! c = Null"
    and u: "inUnit r c i j" and v: "b ! i ! j = Num (int n)"
  shows "solsBelow b r c (n + 1) = solsBelow b r c n"
proof -
  have "(\<exists>d. d < int (n + 1) \<and> s ! r ! c = Num d) \<longleftrightarrow> (\<exists>d. d < int n \<and> s ! r ! c = Num d)"
    if cs: "completes s b" for s
  proof -
    from completes_conflict[OF cs r c e u v] have "s ! r ! c \<noteq> Num (int n)" .
    moreover have "d < int (n + 1) \<longleftrightarrow> d < int n \<or> d = int n" for d by auto
    ultimately show ?thesis by auto
  qed
  then show ?thesis unfolding solsBelow_def by blast
qed

lemma completes_put_iff:
  assumes s: "shape9 b" and r: "r < 9" and c: "c < 9" and e: "b ! r ! c = Null"
  shows "completes t (put b r c (Num d)) \<longleftrightarrow> completes t b \<and> t ! r ! c = Num d"
proof
  assume cs: "completes t (put b r c (Num d))"
  have here: "put b r c (Num d) ! r ! c = Num d" by (simp add: nth_put[OF s r c r c])
  with cs r c have t: "t ! r ! c = Num d" unfolding completes_def by simp
  have "t ! i ! j = b ! i ! j" if ij: "i < 9" "j < 9" and ne: "b ! i ! j \<noteq> Null" for i j
  proof -
    from ne e have "\<not> (i = r \<and> j = c)" by auto
    with nth_put[OF s r c ij, of "Num d"] have eq: "put b r c (Num d) ! i ! j = b ! i ! j" by auto
    with cs ij ne show ?thesis unfolding completes_def by simp
  qed
  with cs t show "completes t b \<and> t ! r ! c = Num d" by (simp add: completes_def)
next
  assume "completes t b \<and> t ! r ! c = Num d"
  then show "completes t (put b r c (Num d))" using completes_put[OF s r c] by blast
qed

lemma solsBelow_step:
  assumes s: "shape9 b" and r: "r < 9" and c: "c < 9" and e: "b ! r ! c = Null"
  shows "solsBelow b r c (n + 1) = solsBelow b r c n \<union> {t. completes t (put b r c (Num (int n)))}"
    and "solsBelow b r c n \<inter> {t. completes t (put b r c (Num (int n)))} = {}"
proof -
  have d: "d < int (n + 1) \<longleftrightarrow> d < int n \<or> d = int n" for d by auto
  show "solsBelow b r c (n + 1) = solsBelow b r c n \<union> {t. completes t (put b r c (Num (int n)))}"
    unfolding solsBelow_def completes_put_iff[OF s r c e] d by auto
  show "solsBelow b r c n \<inter> {t. completes t (put b r c (Num (int n)))} = {}"
    unfolding solsBelow_def completes_put_iff[OF s r c e] by auto
qed

lemma solsBelow_subset: "solsBelow b r c n \<subseteq> {s. completes s b}"
  unfolding solsBelow_def by blast

text \<open>
  On a 9\<times>9 board whose cells are \<open>null\<close> or digits and whose clues do not clash,
  \<open>countSolutions\<close> with a limit of at least two returns the number of completions, as
  far as the cap lets it tell, and leaves the board as it was.
\<close>

lemma countSolutions_counts:
  "shape9 b \<Longrightarrow> clean b \<Longrightarrow> consistent b \<Longrightarrow> 2 \<le> limit \<Longrightarrow>
     \<exists>k. countSolutions b limit = Inr (k, b) \<and> counts k {s. completes s b}"
  "shape9 b \<Longrightarrow> clean b \<Longrightarrow> consistent b \<Longrightarrow> 2 \<le> limit \<Longrightarrow> r < 9 \<Longrightarrow> c < 9 \<Longrightarrow>
     b ! r ! c = Null \<Longrightarrow> 1 \<le> num \<Longrightarrow> counts count (solsBelow b r c num) \<Longrightarrow>
     \<exists>k. countFrom b limit r c num count = Inr (k, b) \<and> counts k {s. completes s b}"
proof (induction b limit and b limit r c num count rule: countSolutions_countFrom.induct)
  case (1 board limit)
  note s = \<open>shape9 board\<close> and cl = \<open>clean board\<close> and co = \<open>consistent board\<close>
    and lim = \<open>2 \<le> limit\<close>
  show ?case
  proof (cases "firstNull board")
    case None
    have "{s. completes s board} = {board}"
      by (rule full_completions[OF s cl co]) (rule firstNull_shape9_None[OF s None])
    then have "counts 1 {s. completes s board}" by (simp add: counts_def)
    moreover from None have "countSolutions board limit = Inr (1, board)"
      by (subst countSolutions.simps) simp
    ultimately show ?thesis by blast
  next
    case (Some pos)
    obtain row col where "pos = (row, col)" by (cases pos)
    with Some have fe: "firstNull board = Some (row, col)" by simp
    from firstNull_shape9_Some[OF s fe] have rc: "row < 9" "col < 9" "board ! row ! col = Null"
      by simp_all
    have c0: "counts 0 (solsBelow board row col 1)"
      unfolding solsBelow_none[OF rc(1,2)] by (simp add: counts_def)
    have "countSolutions board limit = countFrom board limit row col 1 0"
      by (subst countSolutions.simps) (simp add: fe)
    with "1.IH"[OF fe refl s cl co lim rc _ c0] show ?thesis by simp
  qed
next
  case (2 board limit row col num count)
  note s = \<open>shape9 board\<close> and cl = \<open>clean board\<close> and co = \<open>consistent board\<close>
    and lim = \<open>2 \<le> limit\<close> and r = \<open>row < 9\<close> and c = \<open>col < 9\<close>
    and e = \<open>board ! row ! col = Null\<close> and n1 = \<open>1 \<le> num\<close>
    and cnt = \<open>counts count (solsBelow board row col num)\<close>
  show ?case
  proof (cases "9 < num")
    case True
    from cnt have "counts count {s. completes s board}"
      by (simp add: solsBelow_all[OF r c True])
    moreover from True have "countFrom board limit row col num count = Inr (count, board)"
      by (subst countFrom.simps) simp
    ultimately show ?thesis by blast
  next
    case le: False
    then have n9: "\<not> 9 < num" .
    obtain v where iv: "isValid board row col (int num) = Inr v"
      and v: "v \<longleftrightarrow> \<not> (\<exists>i j. inUnit row col i j \<and> board ! i ! j = Num (int num))"
      using isValid_shape9[OF s r c] by blast
    show ?thesis
    proof (cases v)
      case False
      then have vF: "v = False" by simp
      from False v obtain i j where "inUnit row col i j" "board ! i ! j = Num (int num)" by blast
      from solsBelow_skip[OF r c e this] cnt
      have cnt': "counts count (solsBelow board row col (num + 1))" by simp
      have "countFrom board limit row col num count = countFrom board limit row col (num + 1) count"
        by (subst countFrom.simps) (simp add: n9 iv vF)
      with "2.IH"(3)[OF n9 iv vF s cl co lim r c e _ cnt'] show ?thesis by simp
    next
      case True
      then have vT: "v = True" by simp
      let ?b1 = "put board row col (Num (int num))"
      have w1: "wr board row col (Num (int num)) = Inr ?b1" by (rule wr_shape9[OF s r c])
      have s1: "shape9 ?b1" by (rule shape9_put[OF s])
      have cl1: "clean ?b1" by (rule clean_put[OF s cl r c]) (use n1 n9 in auto)
      have co1: "consistent ?b1" by (rule consistent_put_digit[OF s r c e co]) (use v True in simp)
      from "2.IH"(1)[OF n9 iv vT w1 s1 cl1 co1 lim] obtain k where
        sub: "countSolutions ?b1 limit = Inr (k, ?b1)" and ck: "counts k {t. completes t ?b1}"
        by blast
      have b3: "put ?b1 row col Null = board"
        using put_same[OF s r c, of "Num (int num)"] e by simp
      have w2: "wr ?b1 row col Null = Inr board"
        using wr_shape9[OF s1 r c, of Null] b3 by simp
      have cnt': "counts (count + k) (solsBelow board row col (num + 1))"
        unfolding solsBelow_step(1)[OF s r c e]
        by (rule counts_union[OF cnt ck solsBelow_step(2)[OF s r c e]])
      show ?thesis
      proof (cases "limit \<le> count + k")
        case stop: True
        with lim have "2 \<le> count + k" by simp
        from counts_mono[OF cnt' this solsBelow_subset]
        have "counts (count + k) {s. completes s board}" .
        moreover have "countFrom board limit row col num count = Inr (count + k, board)"
          by (subst countFrom.simps) (simp add: n9 iv vT w1 sub w2 stop)
        ultimately show ?thesis by blast
      next
        case go: False
        have "countFrom board limit row col num count
            = countFrom board limit row col (num + 1) (count + k)"
          by (subst countFrom.simps) (simp add: n9 iv vT w1 sub w2 go)
        with "2.IH"(2)[OF n9 iv vT w1 sub refl w2 go s cl co lim r c e _ cnt']
        show ?thesis by simp
      qed
    qed
  qed
qed

section \<open>The puzzle generateSudoku returns\<close>

text \<open>
  \<open>clueCount board\<close> is the number of cells of the board that are not \<open>null\<close>.
\<close>

definition clueCount :: "board \<Rightarrow> nat" where
  "clueCount board = length (filter (\<lambda>c. c \<noteq> Null) (concat board))"

lemma filter_update_le: "length (filter P xs) \<le> Suc (length (filter P (xs[j := v])))"
proof (induction xs arbitrary: j)
  case Nil
  then show ?case by simp
next
  case (Cons x xs)
  show ?case
  proof (cases j)
    case 0
    then show ?thesis by simp
  next
    case (Suc k)
    with Cons.IH[of k] show ?thesis by simp
  qed
qed

lemma concat_update_le:
  assumes "length (filter P (xs ! i)) \<le> Suc (length (filter P y))"
  shows "length (filter P (concat xs)) \<le> Suc (length (filter P (concat (xs[i := y]))))"
  using assms
proof (induction xs arbitrary: i)
  case Nil
  then show ?case by simp
next
  case (Cons x xs)
  show ?case
  proof (cases i)
    case 0
    with Cons.prems show ?thesis by simp
  next
    case (Suc k)
    with Cons.prems have "length (filter P (xs ! k)) \<le> Suc (length (filter P y))" by simp
    from Cons.IH[OF this] Suc show ?thesis by simp
  qed
qed

lemma clueCount_put: "clueCount b \<le> Suc (clueCount (put b r c v))"
  unfolding clueCount_def put_def by (rule concat_update_le) (rule filter_update_le)

lemma length_concat_rows: "\<forall>r \<in> set xs. length r = n \<Longrightarrow> length (concat xs) = length xs * n"
  by (induction xs) simp_all

lemma clueCount_full:
  assumes s: "shape9 b" and full: "\<And>i j. i < 9 \<Longrightarrow> j < 9 \<Longrightarrow> b ! i ! j \<noteq> Null"
  shows "clueCount b = 81"
proof -
  have "x \<noteq> Null" if "x \<in> set (concat b)" for x
  proof -
    from that obtain row where row: "row \<in> set b" "x \<in> set row" by auto
    from row(1) obtain i where i: "i < length b" "row = b ! i" by (auto simp: in_set_conv_nth)
    from row(2) obtain j where j: "j < length row" "x = row ! j" by (auto simp: in_set_conv_nth)
    from i(1) s have i9: "i < 9" by (simp add: shape9_length)
    with j(1) i(2) s have "j < 9" by (simp add: shape9_row)
    from full[OF i9 this] i(2) j(2) show ?thesis by simp
  qed
  then have "filter (\<lambda>c. c \<noteq> Null) (concat b) = concat b" by (simp add: filter_id_conv)
  moreover from s have "\<forall>r \<in> set b. length r = 9" by (simp add: shape9_def list_all_iff)
  from length_concat_rows[OF this] s have "length (concat b) = 81" by (simp add: shape9_length)
  ultimately show ?thesis by (simp add: clueCount_def)
qed

lemma firstNull_full:
  assumes s: "shape9 b" and full: "\<And>i j. i < 9 \<Longrightarrow> j < 9 \<Longrightarrow> b ! i ! j \<noteq> Null"
  shows "firstNull b = None"
proof (cases "firstNull b")
  case None
  then show ?thesis .
next
  case (Some pos)
  obtain i j where "pos = (i, j)" by (cases pos)
  with Some have "firstNull b = Some (i, j)" by simp
  from firstNull_shape9_Some[OF s this] full show ?thesis by blast
qed

text \<open>
  \<open>puzzleOk b\<close> holds of every board \<open>removeNumbers\<close> goes through: nine rows of nine
  cells, each \<open>null\<close> or a digit, no two clues clashing, and \<open>countSolutions\<close> with cap 2
  returning 1.
\<close>

definition puzzleOk :: "board \<Rightarrow> bool" where
  "puzzleOk b \<longleftrightarrow> shape9 b \<and> clean b \<and> consistent b \<and> countSolutions b 2 = Inr (1, b)"

lemma removeLoop_puzzleOk:
  assumes "puzzleOk b" and "removed \<le> n" and "81 \<le> clueCount b + removed"
    and "\<forall>(r, c) \<in> set cells. r < 9 \<and> c < 9"
  shows "\<exists>b'. removeLoop b n removed cells = Inr b' \<and> puzzleOk b' \<and> 81 \<le> clueCount b' + n"
  using assms
proof (induction cells arbitrary: b removed)
  case Nil
  then show ?case by simp
next
  case (Cons pos cells)
  obtain row col where pos: "pos = (row, col)" by (cases pos)
  with Cons.prems(4) have r: "row < 9" and c: "col < 9"
    and rest: "\<forall>(r, c) \<in> set cells. r < 9 \<and> c < 9" by simp_all
  from Cons.prems(1) have s: "shape9 b" and cl: "clean b" and co: "consistent b"
    by (simp_all add: puzzleOk_def)
  show ?case
  proof (cases "n \<le> removed")
    case True
    with Cons.prems(1,2,3) pos show ?thesis by simp
  next
    case False
    let ?b1 = "put b row col Null"
    have rd1: "rd b row col = Inr (b ! row ! col)" by (rule rd_shape9[OF s r c])
    have w1: "wr b row col Null = Inr ?b1" by (rule wr_shape9[OF s r c])
    have s1: "shape9 ?b1" by (rule shape9_put[OF s])
    have cl1: "clean ?b1" by (rule clean_put[OF s cl r c]) simp
    have co1: "consistent ?b1" by (rule consistent_put_null[OF s r c co])
    from countSolutions_counts(1)[OF s1 cl1 co1, of 2] obtain k where
      k: "countSolutions ?b1 2 = Inr (k, ?b1)" by auto
    show ?thesis
    proof (cases "k = 1")
      case True
      with k s1 cl1 co1 have ok1: "puzzleOk ?b1" by (simp add: puzzleOk_def)
      from False Cons.prems(2) have le: "removed + 1 \<le> n" by simp
      from clueCount_put[of b row col Null] Cons.prems(3)
      have cc: "81 \<le> clueCount ?b1 + (removed + 1)" by simp
      have "removeLoop b n removed (pos # cells) = removeLoop ?b1 n (removed + 1) cells"
        using False True by (simp add: pos rd1 w1 k)
      with Cons.IH[OF ok1 le cc rest] show ?thesis by simp
    next
      case ne: False
      have w2: "wr ?b1 row col (b ! row ! col) = Inr b"
        using wr_shape9[OF s1 r c, of "b ! row ! col"] put_same[OF s r c, of Null] by simp
      have "removeLoop b n removed (pos # cells) = removeLoop b n removed cells"
        using False ne by (simp add: pos rd1 w1 k w2)
      with Cons.IH[OF Cons.prems(1,2,3) rest] show ?thesis by simp
    qed
  qed
qed

lemma counts_one: "counts 1 S \<Longrightarrow> \<exists>s. S = {s}"
  by (simp add: counts_def)

lemma puzzleOk_unique:
  assumes "puzzleOk b"
  shows "\<exists>!s. completes s b"
proof -
  from assms have s: "shape9 b" and cl: "clean b" and co: "consistent b"
    and one: "countSolutions b 2 = Inr (1, b)" by (simp_all add: puzzleOk_def)
  from countSolutions_counts(1)[OF s cl co, of 2] one have "counts 1 {s. completes s b}" by auto
  from counts_one[OF this] obtain t where eq: "{s. completes s b} = {t}" by (rule exE)
  have mem: "completes s b \<longleftrightarrow> s = t" for s
  proof -
    have "s \<in> {s. completes s b} \<longleftrightarrow> s \<in> {t}" by (simp only: eq)
    then show ?thesis by simp
  qed
  show ?thesis by (rule ex1I[of _ t]) (simp_all add: mem)
qed

lemma validGrid_puzzleOk:
  assumes "validGrid b"
  shows "puzzleOk b \<and> clueCount b = 81"
proof -
  from assms have s: "shape9 b" by (simp add: validGrid_def)
  have full: "b ! i ! j \<noteq> Null" if "i < 9" "j < 9" for i j
  proof -
    from assms that have "placedOk b i j" by (simp add: validGrid_def)
    then show ?thesis unfolding placedOk_def by auto
  qed
  from firstNull_full[OF s full] have "countSolutions b 2 = Inr (1, b)"
    by (subst countSolutions.simps) simp
  with s validGrid_clean[OF assms] validGrid_consistent[OF assms] clueCount_full[OF s full]
  show ?thesis by (simp add: puzzleOk_def)
qed

lemma cells_in_range:
  "\<forall>(r, c) \<in> set (fst (shuffle (map (\<lambda>i. (i div 9, i mod 9)) [0..<81]) g)). r < 9 \<and> c < 9"
  unfolding shuffle_set by auto

lemma removeNumbers_puzzleOk:
  assumes "validGrid b"
  shows "\<exists>b' g'. removeNumbers b n g = Inr (b', g') \<and> puzzleOk b' \<and> 81 \<le> clueCount b' + n"
proof -
  obtain shuffledCells g' where
    sh: "shuffle (map (\<lambda>i. (i div 9, i mod 9)) [0..<81]) g = (shuffledCells, g')"
    by (cases "shuffle (map (\<lambda>i. (i div 9, i mod 9)) [0..<81]) g")
  with cells_in_range[of g] have range: "\<forall>(r, c) \<in> set shuffledCells. r < 9 \<and> c < 9" by simp
  from validGrid_puzzleOk[OF assms] have ok: "puzzleOk b" and cc: "81 \<le> clueCount b + 0"
    by simp_all
  from removeLoop_puzzleOk[OF ok _ cc range, of n] obtain b' where
    "removeLoop b n 0 shuffledCells = Inr b'" "puzzleOk b'" "81 \<le> clueCount b' + n" by auto
  with sh show ?thesis by (simp add: removeNumbers_def)
qed

text \<open>
  C1. For every difficulty and every sequence of random draws \<open>generateSudoku\<close> returns a
  board of nine rows of nine cells, each \<open>null\<close> or a digit from 1 to 9, on which
  \<open>countSolutions\<close> with cap 2 returns 1 and which has exactly one completion to a full
  valid grid; the board has at least 81 minus the removal target clues, that is at least
  41, 31 and 24 clues for easy, medium and hard.
\<close>

theorem generateSudoku_unique_solution:
  "\<exists>puzzle g'. generateSudoku difficulty g = Inr (puzzle, g')
      \<and> shape9 puzzle \<and> clean puzzle
      \<and> countSolutions puzzle 2 = Inr (1, puzzle)
      \<and> (\<exists>!s. completes s puzzle)
      \<and> 81 - cellsToRemoveFor difficulty \<le> clueCount puzzle
      \<and> (case difficulty of Easy \<Rightarrow> 41 | Medium \<Rightarrow> 31 | Hard \<Rightarrow> 24) \<le> clueCount puzzle"
proof -
  from fillBoard_createEmptyBoard[of g] obtain filled g1 where
    fill: "fillBoard createEmptyBoard g = Inr (True, filled, g1)" and grid: "validGrid filled"
    by blast
  from removeNumbers_puzzleOk[OF grid, of "cellsToRemoveFor difficulty" g1] obtain puzzle g' where
    rem: "removeNumbers filled (cellsToRemoveFor difficulty) g1 = Inr (puzzle, g')"
    and ok: "puzzleOk puzzle" and cc: "81 \<le> clueCount puzzle + cellsToRemoveFor difficulty"
    by blast
  from fill rem have "generateSudoku difficulty g = Inr (puzzle, g')"
    by (simp add: generateSudoku_def)
  moreover from ok have "shape9 puzzle" "clean puzzle" "countSolutions puzzle 2 = Inr (1, puzzle)"
    by (simp_all add: puzzleOk_def)
  moreover from ok have "\<exists>!s. completes s puzzle" by (rule puzzleOk_unique)
  moreover from cc have "81 - cellsToRemoveFor difficulty \<le> clueCount puzzle" by simp
  moreover from cc have "(case difficulty of Easy \<Rightarrow> 41 | Medium \<Rightarrow> 31 | Hard \<Rightarrow> 24) \<le> clueCount puzzle"
    by (cases difficulty) (simp_all add: cellsToRemoveFor_def)
  ultimately show ?thesis by blast
qed

theorem generateSudoku_unique_solution_witness:
  "\<exists>puzzle g'. generateSudoku Hard (\<lambda>n. 0) = Inr (puzzle, g')
      \<and> shape9 puzzle \<and> clean puzzle
      \<and> countSolutions puzzle 2 = Inr (1, puzzle)
      \<and> (\<exists>!s. completes s puzzle)
      \<and> 24 \<le> clueCount puzzle"
proof -
  from generateSudoku_unique_solution[of Hard "\<lambda>n. 0"] obtain puzzle g' where
    "generateSudoku Hard (\<lambda>n. 0) = Inr (puzzle, g')" "shape9 puzzle" "clean puzzle"
    "countSolutions puzzle 2 = Inr (1, puzzle)" "\<exists>!s. completes s puzzle"
    "24 \<le> clueCount puzzle"
    by auto
  then show ?thesis by blast
qed

end
